theory Spec2Isabelle
  imports Main "HOL-Library.Extended_Nat" "HOL-Library.AList" "HOL-Library.Multiset"
    "HOL-Library.Sublist"
begin

section \<open>Data model\<close>

text \<open>
  The seeders of \<^verbatim>\<open>src/sqlite-core/seed.ts\<close> (\<^verbatim>\<open>SqliteSeeder\<close>) and of the Postgres
  twin (\<^verbatim>\<open>PgSeeder\<close>) are the same program up to the constant of the parameter
  ceiling; one embedding with the ceiling as a field of the seeder covers both. (The
  twin awaits every access to the store and skips a store row whose index is
  \<^verbatim>\<open>undefined\<close>, which no run produces.)

  A JavaScript value that can sit in a chunk is either serialisable data or a
  \<^verbatim>\<open>ColumnValueReference\<close> object (it carries a function). The object
  \<^verbatim>\<open>{_tag: "GeneratedAsPlaceholder"}\<close> is data: \<open>JPlaceholder\<close>.
\<close>

datatype jsvalue = JUndefined | JNull | JNum int | JStr string | JPlaceholder

record columnValueReference =
  refColumnName :: string
  refTableName :: string
  refRowIndex :: int
  transformFn :: "jsvalue \<Rightarrow> jsvalue"

datatype cell = Value jsvalue | Reference columnValueReference

text \<open>A chunk is a JavaScript object: its entries in enumeration order.\<close>

type_synonym chunk = "(string \<times> cell) list"

type_synonym row = "(string \<times> jsvalue) list"

fun isColumnValueReference :: "cell \<Rightarrow> bool" where
  "isColumnValueReference (Reference r) = True"
| "isColumnValueReference (Value v) = False"

fun isGeneratedAsPlaceholder :: "cell \<Rightarrow> bool" where
  "isGeneratedAsPlaceholder (Value JPlaceholder) = True"
| "isGeneratedAsPlaceholder c = False"

record queuedChunk =
  chunk :: chunk
  rowIndex :: int
  pendingRefs :: "columnValueReference list"

text \<open>
  \<open>batchSize\<close> is \<^verbatim>\<open>Math.floor(MAX / columnCount)\<close>, which is \<^verbatim>\<open>Infinity\<close> for a
  chunk with no column: an extended natural number.
\<close>

record tableState =
  batch :: "chunk list"
  queue :: "queuedChunk list"
  seededCount :: nat
  rowIndices :: "int list"
  batchSize :: enat
  columnCount :: nat

text \<open>
  The reference store is the temporary SQLite database of \<^verbatim>\<open>createRefDatabase\<close>: one
  table per key of \<open>refsConfig\<close>, with the primary key \<^verbatim>\<open>_rowIndex\<close> and one TEXT
  column per referenceable column. A stored text is the \<^verbatim>\<open>devalue\<close> encoding of a
  value; \<^verbatim>\<open>parse\<close> inverts \<^verbatim>\<open>stringify\<close>, so the text is represented by the value it
  encodes.
\<close>

type_synonym serialized = jsvalue

record refDatabase =
  db_tables :: "(string \<times> string list) list"
  db_rows :: "string \<times> int \<Rightarrow> (string \<times> serialized) list option"

text \<open>
  One call of the external bulk insert \<^verbatim>\<open>db.insert(table).values(rows)\<close>.
  \<open>ic_table\<close> and \<open>ic_rows\<close> are its arguments. \<open>ic_rowIndices\<close> and \<open>ic_chunks\<close>
  are ghost fields that identify the rows: their row sequence numbers and the chunks
  they were resolved from, in order.
\<close>

record insertCall =
  ic_table :: string
  ic_rows :: "row list"
  ic_rowIndices :: "int list"
  ic_chunks :: "chunk list"

text \<open>
  What can be thrown: \<^verbatim>\<open>Table "T" not found in schema\<close>; \<^verbatim>\<open>Cannot resolve ref without
  SQLite database: T[i].c\<close>; the error of \<^verbatim>\<open>getUnresolvedRefsError\<close> with its message; a
  rejection by the external insert; a failure of a statement on the store; \<^verbatim>\<open>stringify\<close>
  refusing a value; a dereference of \<^verbatim>\<open>null\<close>.
\<close>

datatype error =
    TableNotFound string
  | CannotResolveRefWithoutDatabase string int string
  | UnresolvedRefs string
  | InsertRejected
  | SqlError
  | StringifyError
  | TypeError

text \<open>
  The seeder object: \<open>refsConfig\<close> as the constructor leaves it (a \<^verbatim>\<open>Map\<close> from table
  name to the set of its referenceable columns, in insertion order), the table names of
  the schema, the parameter ceiling, and the external insert, which accepts or rejects a
  call given the calls it accepted before.
\<close>

record seeder =
  refsConfig :: "(string \<times> string list) list"
  schema :: "string list"
  maxParameters :: nat
  dbInsert :: "insertCall list \<Rightarrow> string \<Rightarrow> row list \<Rightarrow> bool"

definition SQLITE_MAX_PARAMETERS :: nat where
  "SQLITE_MAX_PARAMETERS = 999"

definition PG_MAX_PARAMETERS :: nat where
  "PG_MAX_PARAMETERS = 65535"

text \<open>
  The mutable state of one run of \<^verbatim>\<open>execute\<close>: the two maps it creates, the
  reference store (\<open>None\<close> is \<^verbatim>\<open>null\<close>) and the calls the external target accepted.
\<close>

record engine =
  tableStates :: "(string \<times> tableState) list"
  rowIndexByTable :: "string \<Rightarrow> int option"
  sqliteDb :: "refDatabase option"
  inserted :: "insertCall list"

section \<open>Operations\<close>

definition getBatchSizeForTable :: "seeder \<Rightarrow> nat \<Rightarrow> enat" where
  "getBatchSizeForTable sd n =
     (if n = 0 then \<infinity> else enat (maxParameters sd div n))"

definition createRefDatabase :: "seeder \<Rightarrow> refDatabase" where
  "createRefDatabase sd = \<lparr>db_tables = refsConfig sd, db_rows = (\<lambda>k. None)\<rparr>"

fun extractRefs :: "chunk \<Rightarrow> columnValueReference list" where
  "extractRefs [] = []"
| "extractRefs ((k, Reference r) # rest) = r # extractRefs rest"
| "extractRefs ((k, Value v) # rest) = extractRefs rest"

text \<open>
  \<^verbatim>\<open>SELECT 1 FROM "T" WHERE _rowIndex = ?\<close>: the statement fails on a table the store
  does not have.
\<close>

definition refExists :: "columnValueReference \<Rightarrow> refDatabase \<Rightarrow> error + bool" where
  "refExists ref db =
     (case map_of (db_tables db) (refTableName ref) of
        None \<Rightarrow> Inl SqlError
      | Some cols \<Rightarrow> Inr (db_rows db (refTableName ref, refRowIndex ref) \<noteq> None))"

text \<open>
  \<^verbatim>\<open>SELECT "c" FROM "T" WHERE _rowIndex = ?\<close>: fails on a table or column the store does
  not have; no row gives \<^verbatim>\<open>undefined\<close>, and so does a row without the column.
\<close>

definition resolveRef :: "columnValueReference \<Rightarrow> refDatabase \<Rightarrow> error + jsvalue" where
  "resolveRef ref db =
     (case map_of (db_tables db) (refTableName ref) of
        None \<Rightarrow> Inl SqlError
      | Some cols \<Rightarrow>
          if refColumnName ref \<notin> set cols then Inl SqlError
          else (case db_rows db (refTableName ref, refRowIndex ref) of
                  None \<Rightarrow> Inr JUndefined
                | Some r \<Rightarrow>
                    (case map_of r (refColumnName ref) of
                       None \<Rightarrow> Inr JUndefined
                     | Some rawValue \<Rightarrow> Inr (transformFn ref rawValue))))"

fun areAllRefsResolved :: "columnValueReference list \<Rightarrow> refDatabase \<Rightarrow> error + bool" where
  "areAllRefsResolved [] db = Inr True"
| "areAllRefsResolved (ref # refs) db =
     (case refExists ref db of
        Inl e \<Rightarrow> Inl e
      | Inr False \<Rightarrow> Inr False
      | Inr True \<Rightarrow> areAllRefsResolved refs db)"

fun resolveChunk :: "chunk \<Rightarrow> refDatabase option \<Rightarrow> error + row" where
  "resolveChunk [] db = Inr []"
| "resolveChunk ((key, Reference r) # rest) db =
     (case db of
        None \<Rightarrow> Inl (CannotResolveRefWithoutDatabase (refTableName r) (refRowIndex r) (refColumnName r))
      | Some d \<Rightarrow>
          (case resolveRef r d of
             Inl e \<Rightarrow> Inl e
           | Inr v \<Rightarrow>
               (case resolveChunk rest db of
                  Inl e \<Rightarrow> Inl e
                | Inr resolved \<Rightarrow> Inr ((key, v) # resolved))))"
| "resolveChunk ((key, Value v) # rest) db =
     (if isGeneratedAsPlaceholder (Value v) then resolveChunk rest db
      else (case resolveChunk rest db of
              Inl e \<Rightarrow> Inl e
            | Inr resolved \<Rightarrow> Inr ((key, v) # resolved)))"

text \<open>
  \<^verbatim>\<open>stringify\<close> of \<^verbatim>\<open>devalue\<close> refuses a function, hence a reference object.
  \<open>chunkGet c col\<close> is \<^verbatim>\<open>chunk[col]\<close>.
\<close>

fun stringify :: "cell \<Rightarrow> error + serialized" where
  "stringify (Value v) = Inr v"
| "stringify (Reference r) = Inl StringifyError"

fun stringifyAll :: "cell list \<Rightarrow> error + serialized list" where
  "stringifyAll [] = Inr []"
| "stringifyAll (c # cs) =
     (case stringify c of
        Inl e \<Rightarrow> Inl e
      | Inr v \<Rightarrow> (case stringifyAll cs of Inl e \<Rightarrow> Inl e | Inr vs \<Rightarrow> Inr (v # vs)))"

definition chunkGet :: "chunk \<Rightarrow> string \<Rightarrow> cell" where
  "chunkGet c col = (case map_of c col of None \<Rightarrow> Value JUndefined | Some x \<Rightarrow> x)"

fun resolveBatch :: "chunk list \<Rightarrow> refDatabase option \<Rightarrow> error + row list" where
  "resolveBatch [] db = Inr []"
| "resolveBatch (c # cs) db =
     (case resolveChunk c db of
        Inl e \<Rightarrow> Inl e
      | Inr r \<Rightarrow> (case resolveBatch cs db of Inl e \<Rightarrow> Inl e | Inr rs \<Rightarrow> Inr (r # rs)))"

text \<open>
  The loop of \<^verbatim>\<open>flush\<close> that records the referenceable columns of every flushed chunk
  under its row index. \<^verbatim>\<open>_rowIndex\<close> is the primary key: a second row under one index
  fails. The loop pairs \<^verbatim>\<open>batch[i]\<close> with \<^verbatim>\<open>rowIndices[i]\<close>; both lists are pushed to
  together, so they are zipped.
\<close>

fun storeRows :: "string \<Rightarrow> string list \<Rightarrow> (chunk \<times> int) list \<Rightarrow> refDatabase
    \<Rightarrow> error option \<times> refDatabase" where
  "storeRows tableName columnsList [] db = (None, db)"
| "storeRows tableName columnsList ((c, i) # rest) db =
     (case stringifyAll (map (chunkGet c) columnsList) of
        Inl e \<Rightarrow> (Some e, db)
      | Inr vals \<Rightarrow>
          if db_rows db (tableName, i) \<noteq> None then (Some SqlError, db)
          else storeRows tableName columnsList rest
                 (db\<lparr>db_rows := (db_rows db)((tableName, i) \<mapsto> zip columnsList vals)\<rparr>))"

definition recordRefColumns :: "seeder \<Rightarrow> string \<Rightarrow> tableState \<Rightarrow> refDatabase option
    \<Rightarrow> error option \<times> refDatabase option" where
  "recordRefColumns sd tableName st db =
     (case db of
        None \<Rightarrow> (None, None)
      | Some d \<Rightarrow>
          (case map_of (refsConfig sd) tableName of
             None \<Rightarrow> (None, Some d)
           | Some refColumns \<Rightarrow>
               if refColumns = [] then (None, Some d)
               else (case storeRows tableName refColumns (zip (batch st) (rowIndices st)) d of
                       (r, d') \<Rightarrow> (r, Some d'))))"

text \<open>
  \<^verbatim>\<open>flush(tableName, tableState, sqliteDb)\<close>. Every caller passes the state object that
  \<open>tableStates\<close> holds for \<open>tableName\<close>, so the model reads it from there. The result is
  the error thrown, if any, and the state at that point.
\<close>

definition flush :: "seeder \<Rightarrow> string \<Rightarrow> engine \<Rightarrow> error option \<times> engine" where
  "flush sd tableName e =
     (case map_of (tableStates e) tableName of
        None \<Rightarrow> (None, e)
      | Some st \<Rightarrow>
          if batch st = [] then (None, e)
          else if tableName \<notin> set (schema sd) then (Some (TableNotFound tableName), e)
          else (case resolveBatch (batch st) (sqliteDb e) of
                  Inl err \<Rightarrow> (Some err, e)
                | Inr resolvedBatch \<Rightarrow>
                    if \<not> dbInsert sd (inserted e) tableName resolvedBatch
                    then (Some InsertRejected, e)
                    else
                      (let e1 = e\<lparr>inserted := inserted e @
                                   [\<lparr>ic_table = tableName, ic_rows = resolvedBatch,
                                     ic_rowIndices = rowIndices st,
                                     ic_chunks = batch st\<rparr>]\<rparr>
                       in case recordRefColumns sd tableName st (sqliteDb e) of
                            (Some err, db') \<Rightarrow> (Some err, e1\<lparr>sqliteDb := db'\<rparr>)
                          | (None, db') \<Rightarrow>
                              (None, e1\<lparr>sqliteDb := db',
                                        tableStates := AList.update tableName
                                          (st\<lparr>seededCount := seededCount st + length (batch st),
                                              batch := [], rowIndices := []\<rparr>)
                                          (tableStates e)\<rparr>))))"

text \<open>
  \<^verbatim>\<open>drainAllQueues\<close>: the inner loop over one queue, the loop over the tables, and the
  \<^verbatim>\<open>while (madeProgress)\<close> loop around both.
\<close>

fun drainQueue :: "refDatabase \<Rightarrow> queuedChunk list \<Rightarrow> tableState \<Rightarrow> queuedChunk list \<Rightarrow> bool
    \<Rightarrow> error + (tableState \<times> queuedChunk list \<times> bool)" where
  "drainQueue db [] st stillQueued madeProgress = Inr (st, stillQueued, madeProgress)"
| "drainQueue db (queued # rest) st stillQueued madeProgress =
     (case areAllRefsResolved (pendingRefs queued) db of
        Inl e \<Rightarrow> Inl e
      | Inr True \<Rightarrow>
          drainQueue db rest
            (st\<lparr>batch := batch st @ [chunk queued],
                rowIndices := rowIndices st @ [rowIndex queued]\<rparr>)
            stillQueued True
      | Inr False \<Rightarrow> drainQueue db rest st (stillQueued @ [queued]) madeProgress)"

fun drainPass :: "refDatabase \<Rightarrow> (string \<times> tableState) list \<Rightarrow> bool
    \<Rightarrow> error + ((string \<times> tableState) list \<times> bool)" where
  "drainPass db [] madeProgress = Inr ([], madeProgress)"
| "drainPass db ((tableName, st) # ts) madeProgress =
     (case drainQueue db (queue st) st [] madeProgress of
        Inl e \<Rightarrow> Inl e
      | Inr (st', stillQueued, madeProgress') \<Rightarrow>
          (case drainPass db ts madeProgress' of
             Inl e \<Rightarrow> Inl e
           | Inr (ts', madeProgress'') \<Rightarrow>
               Inr ((tableName, st'\<lparr>queue := stillQueued\<rparr>) # ts', madeProgress'')))"

function drainLoop :: "refDatabase \<Rightarrow> (string \<times> tableState) list \<Rightarrow> bool
    \<Rightarrow> error + ((string \<times> tableState) list \<times> bool)" where
  "drainLoop db ts anyProgress =
     (case drainPass db ts False of
        Inl e \<Rightarrow> Inl e
      | Inr (ts', madeProgress) \<Rightarrow>
          if madeProgress then drainLoop db ts' True else Inr (ts', anyProgress))"
  by pat_completeness auto

definition drainAllQueues :: "(string \<times> tableState) list \<Rightarrow> refDatabase
    \<Rightarrow> error + ((string \<times> tableState) list \<times> bool)" where
  "drainAllQueues ts db = drainLoop db ts False"

text \<open>
  \<^verbatim>\<open>flushAllQueuesAfterDrain\<close> walks the entries of the map while \<^verbatim>\<open>flush\<close> and
  \<^verbatim>\<open>drainAllQueues\<close> mutate the state objects; no key is added, so the walk is over the
  keys, reading each table's current state.
\<close>

fun flushAllQueuesAfterDrainLoop :: "seeder \<Rightarrow> string list \<Rightarrow> engine \<Rightarrow> error option \<times> engine" where
  "flushAllQueuesAfterDrainLoop sd [] e = (None, e)"
| "flushAllQueuesAfterDrainLoop sd (tableName # rest) e =
     (case map_of (tableStates e) tableName of
        None \<Rightarrow> flushAllQueuesAfterDrainLoop sd rest e
      | Some st \<Rightarrow>
          if enat (length (batch st)) \<ge> batchSize st then
            (case flush sd tableName e of
               (Some err, e') \<Rightarrow> (Some err, e')
             | (None, e') \<Rightarrow>
                 (case sqliteDb e' of
                    None \<Rightarrow> flushAllQueuesAfterDrainLoop sd rest e'
                  | Some d \<Rightarrow>
                      (case drainAllQueues (tableStates e') d of
                         Inl err \<Rightarrow> (Some err, e')
                       | Inr (ts', anyProgress) \<Rightarrow>
                           flushAllQueuesAfterDrainLoop sd rest (e'\<lparr>tableStates := ts'\<rparr>))))
          else flushAllQueuesAfterDrainLoop sd rest e)"

definition flushAllQueuesAfterDrain :: "seeder \<Rightarrow> engine \<Rightarrow> error option \<times> engine" where
  "flushAllQueuesAfterDrain sd e = flushAllQueuesAfterDrainLoop sd (map fst (tableStates e)) e"

text \<open>
  The generator is the finite list of the chunks it yields, each with its \<^verbatim>\<open>_tag\<close>, the
  table name, taken out. The body of the stream loop of \<^verbatim>\<open>execute\<close> comes in its two
  halves. \<open>acceptChunk\<close>
  creates the table's state at its first chunk, numbers the row and puts the chunk in
  the batch or in the queue. \<open>hasRefs\<close> is \<^verbatim>\<open>refsConfig.size > 0\<close>; \<^verbatim>\<open>sqliteDb!\<close> on a
  null store is the \<open>TypeError\<close> of JavaScript.
\<close>

definition hasRefs :: "seeder \<Rightarrow> bool" where
  "hasRefs sd = (refsConfig sd \<noteq> [])"

definition newTableState :: "seeder \<Rightarrow> chunk \<Rightarrow> tableState" where
  "newTableState sd chunkData =
     \<lparr>batch = [], queue = [], seededCount = 0, rowIndices = [],
      batchSize = getBatchSizeForTable sd (length chunkData),
      columnCount = length chunkData\<rparr>"

definition initTable :: "seeder \<Rightarrow> string \<Rightarrow> chunk \<Rightarrow> engine \<Rightarrow> engine" where
  "initTable sd tableName chunkData e =
     (if map_of (tableStates e) tableName = None
      then e\<lparr>tableStates := AList.update tableName (newTableState sd chunkData) (tableStates e),
             rowIndexByTable := (rowIndexByTable e)(tableName \<mapsto> 0)\<rparr>
      else e)"

definition pushBatch :: "string \<Rightarrow> chunk \<Rightarrow> int \<Rightarrow> engine \<Rightarrow> engine" where
  "pushBatch tableName chunkData i e =
     (let st = the (map_of (tableStates e) tableName)
      in e\<lparr>tableStates := AList.update tableName
               (st\<lparr>batch := batch st @ [chunkData], rowIndices := rowIndices st @ [i]\<rparr>)
               (tableStates e)\<rparr>)"

definition pushQueue :: "string \<Rightarrow> chunk \<Rightarrow> int \<Rightarrow> columnValueReference list \<Rightarrow> engine \<Rightarrow> engine" where
  "pushQueue tableName chunkData i refs e =
     (let st = the (map_of (tableStates e) tableName)
      in e\<lparr>tableStates := AList.update tableName
               (st\<lparr>queue := queue st @ [\<lparr>chunk = chunkData, rowIndex = i, pendingRefs = refs\<rparr>]\<rparr>)
               (tableStates e)\<rparr>)"

definition acceptChunk :: "seeder \<Rightarrow> string \<times> chunk \<Rightarrow> engine \<Rightarrow> error option \<times> engine" where
  "acceptChunk sd tagged e =
     (case tagged of (tableName, chunkData) \<Rightarrow>
        let e1 = initTable sd tableName chunkData e;
            i = the (rowIndexByTable e1 tableName);
            e2 = e1\<lparr>rowIndexByTable := (rowIndexByTable e1)(tableName \<mapsto> i + 1)\<rparr>;
            refs = extractRefs chunkData
        in if \<not> hasRefs sd \<or> refs = [] then (None, pushBatch tableName chunkData i e2)
           else (case sqliteDb e2 of
                   None \<Rightarrow> (Some TypeError, e2)
                 | Some d \<Rightarrow>
                     (case areAllRefsResolved refs d of
                        Inl err \<Rightarrow> (Some err, e2)
                      | Inr True \<Rightarrow> (None, pushBatch tableName chunkData i e2)
                      | Inr False \<Rightarrow> (None, pushQueue tableName chunkData i refs e2))))"

definition flushIfFull :: "seeder \<Rightarrow> string \<Rightarrow> engine \<Rightarrow> error option \<times> engine" where
  "flushIfFull sd tableName e =
     (let st = the (map_of (tableStates e) tableName)
      in if enat (length (batch st)) \<ge> batchSize st then
           (case flush sd tableName e of
              (Some err, e') \<Rightarrow> (Some err, e')
            | (None, e') \<Rightarrow>
                if hasRefs sd then
                  (case sqliteDb e' of
                     None \<Rightarrow> (None, e')
                   | Some d \<Rightarrow>
                       (case drainAllQueues (tableStates e') d of
                          Inl err \<Rightarrow> (Some err, e')
                        | Inr (ts', anyProgress) \<Rightarrow>
                            flushAllQueuesAfterDrain sd (e'\<lparr>tableStates := ts'\<rparr>)))
                else (None, e'))
         else (None, e))"

definition processChunk :: "seeder \<Rightarrow> string \<times> chunk \<Rightarrow> engine \<Rightarrow> error option \<times> engine" where
  "processChunk sd tagged e =
     (case acceptChunk sd tagged e of
        (Some err, e') \<Rightarrow> (Some err, e')
      | (None, e') \<Rightarrow> flushIfFull sd (fst tagged) e')"

fun processStream :: "seeder \<Rightarrow> (string \<times> chunk) list \<Rightarrow> engine \<Rightarrow> error option \<times> engine" where
  "processStream sd [] e = (None, e)"
| "processStream sd (tagged # rest) e =
     (case processChunk sd tagged e of
        (Some err, e') \<Rightarrow> (Some err, e')
      | (None, e') \<Rightarrow> processStream sd rest e')"

text \<open>The finalizer: \<^verbatim>\<open>for (const [tableName, tableState] of tableStates) flush(...)\<close>.\<close>

fun flushAll :: "seeder \<Rightarrow> string list \<Rightarrow> engine \<Rightarrow> error option \<times> engine" where
  "flushAll sd [] e = (None, e)"
| "flushAll sd (tableName # rest) e =
     (case flush sd tableName e of
        (Some err, e') \<Rightarrow> (Some err, e')
      | (None, e') \<Rightarrow> flushAll sd rest e')"

text \<open>
  The final loop of \<^verbatim>\<open>execute\<close>:
  \<^verbatim>\<open>while (madeProgress) { madeProgress = drainAllQueues(...); for (...) flush(...) }\<close>.
  The source tests the handle of the store once, before the loop; the model reads the
  store's current content from the engine at every iteration, and the handle is never
  reset to null.
\<close>

function finalDrainLoop :: "seeder \<Rightarrow> engine \<Rightarrow> error option \<times> engine" where
  "finalDrainLoop sd e =
     (case sqliteDb e of
        None \<Rightarrow> (None, e)
      | Some d \<Rightarrow>
          (case drainAllQueues (tableStates e) d of
             Inl err \<Rightarrow> (Some err, e)
           | Inr (ts', madeProgress) \<Rightarrow>
               (case flushAll sd (map fst ts') (e\<lparr>tableStates := ts'\<rparr>) of
                  (Some err, e') \<Rightarrow> (Some err, e')
                | (None, e') \<Rightarrow>
                    if madeProgress then finalDrainLoop sd e' else (None, e'))))"
  by pat_completeness auto

text \<open>
  \<^verbatim>\<open>getUnresolvedRefsError\<close>: one line per pending reference of every queued chunk of
  every table, joined by newlines under a header. Numbers print in decimal; the arrow
  of the source is the three bytes of its UTF-8 encoding.
\<close>

fun showNat :: "nat \<Rightarrow> string" where
  "showNat n =
     (if n < 10 then [''0123456789'' ! n]
      else showNat (n div 10) @ [''0123456789'' ! (n mod 10)])"

declare showNat.simps [simp del]

definition showInt :: "int \<Rightarrow> string" where
  "showInt i = (if i < 0 then CHR ''-'' # showNat (nat (- i)) else showNat (nat i))"

definition arrow :: string where
  "arrow = [CHR 0xE2, CHR 0x86, CHR 0x92]"

definition unresolvedLine :: "string \<Rightarrow> queuedChunk \<Rightarrow> columnValueReference \<Rightarrow> string" where
  "unresolvedLine tableName queued ref =
     tableName @ ''['' @ showInt (rowIndex queued) @ ''] '' @ arrow @ '' '' @
     refTableName ref @ ''['' @ showInt (refRowIndex ref) @ ''].'' @ refColumnName ref"

definition unresolvedLines :: "(string \<times> tableState) list \<Rightarrow> string list" where
  "unresolvedLines ts =
     concat (map (\<lambda>(tableName, st).
       concat (map (\<lambda>queued. map (unresolvedLine tableName queued) (pendingRefs queued))
                   (queue st))) ts)"

fun joinLines :: "string list \<Rightarrow> string" where
  "joinLines [] = []"
| "joinLines [l] = l"
| "joinLines (l # l' # ls) = l @ [CHR 0x0A] @ joinLines (l' # ls)"

definition getUnresolvedRefsError :: "(string \<times> tableState) list \<Rightarrow> string" where
  "getUnresolvedRefsError ts =
     ''Failed to resolve refs (possible circular dependency):'' @ [CHR 0x0A] @
     joinLines (unresolvedLines ts)"

text \<open>
  \<^verbatim>\<open>execute\<close>. \<open>executeBody\<close> is the \<^verbatim>\<open>try\<close> block and returns the engine as the
  block leaves it; \<^verbatim>\<open>finally\<close> discards the store, so \<open>execute\<close> leaves the outcome
  and the calls the external target accepted.
\<close>

definition initialEngine :: "seeder \<Rightarrow> engine" where
  "initialEngine sd =
     \<lparr>tableStates = [], rowIndexByTable = (\<lambda>t. None),
      sqliteDb = (if hasRefs sd then Some (createRefDatabase sd) else None),
      inserted = []\<rparr>"

definition checkStuck :: "engine \<Rightarrow> error option \<times> engine" where
  "checkStuck e =
     (if list_ex (\<lambda>(tableName, st). queue st \<noteq> []) (tableStates e)
      then (Some (UnresolvedRefs (getUnresolvedRefsError (tableStates e))), e)
      else (None, e))"

definition finalDrain :: "seeder \<Rightarrow> engine \<Rightarrow> error option \<times> engine" where
  "finalDrain sd e1 =
     (case flushAll sd (map fst (tableStates e1)) e1 of
        (Some err, e') \<Rightarrow> (Some err, e')
      | (None, e2) \<Rightarrow> if hasRefs sd then finalDrainLoop sd e2 else (None, e2))"

definition finalize :: "seeder \<Rightarrow> engine \<Rightarrow> error option \<times> engine" where
  "finalize sd e1 =
     (case finalDrain sd e1 of
        (Some err, e') \<Rightarrow> (Some err, e')
      | (None, e3) \<Rightarrow> checkStuck e3)"

definition executeBody :: "seeder \<Rightarrow> (string \<times> chunk) list \<Rightarrow> error option \<times> engine" where
  "executeBody sd generator =
     (case processStream sd generator (initialEngine sd) of
        (Some err, e') \<Rightarrow> (Some err, e')
      | (None, e1) \<Rightarrow> finalize sd e1)"

definition execute :: "seeder \<Rightarrow> (string \<times> chunk) list \<Rightarrow> error option \<times> insertCall list" where
  "execute sd generator = (case executeBody sd generator of (r, e) \<Rightarrow> (r, inserted e))"

section \<open>The tag checks\<close>

text \<open>\<open>extractRefs\<close> and \<open>resolveChunk\<close> match on the constructor where the source calls
  \<^verbatim>\<open>isColumnValueReference\<close>: the references of a chunk are its values that pass the
  check, in order.\<close>

lemma extractRefs_classifier:
  "map Reference (extractRefs c) = filter isColumnValueReference (map snd c)"
  by (induction c rule: extractRefs.induct) simp_all

section \<open>Termination of the two loops\<close>

text \<open>
  Both \<^verbatim>\<open>while\<close> loops run as long as a drain moved a chunk from a queue to a batch.
  The number of queued chunks is their measure.
\<close>

definition totalQueued :: "(string \<times> tableState) list \<Rightarrow> nat" where
  "totalQueued ts = sum_list (map (\<lambda>(tableName, st). length (queue st)) ts)"

text \<open>What one pass does to a table when no lookup fails, in closed form.\<close>

definition resolvedNow :: "refDatabase \<Rightarrow> queuedChunk \<Rightarrow> bool" where
  "resolvedNow db q = (areAllRefsResolved (pendingRefs q) db = Inr True)"

definition drainedTable :: "refDatabase \<Rightarrow> tableState \<Rightarrow> tableState" where
  "drainedTable db st =
     st\<lparr>batch := batch st @ map chunk (filter (resolvedNow db) (queue st)),
        rowIndices := rowIndices st @ map rowIndex (filter (resolvedNow db) (queue st)),
        queue := filter (\<lambda>q. \<not> resolvedNow db q) (queue st)\<rparr>"

lemma drainQueue_char:
  "drainQueue db qs st sq mp = Inr (st', sq', mp') \<Longrightarrow>
     st' = st\<lparr>batch := batch st @ map chunk (filter (resolvedNow db) qs),
              rowIndices := rowIndices st @ map rowIndex (filter (resolvedNow db) qs)\<rparr>
     \<and> sq' = sq @ filter (\<lambda>q. \<not> resolvedNow db q) qs
     \<and> mp' = (mp \<or> (\<exists>q \<in> set qs. resolvedNow db q))"
proof (induction qs arbitrary: st sq mp)
  case Nil
  then show ?case by simp
next
  case (Cons q qs)
  show ?case
  proof (cases "areAllRefsResolved (pendingRefs q) db")
    case (Inl e)
    with Cons.prems show ?thesis by simp
  next
    case (Inr b)
    show ?thesis
    proof (cases b)
      case True
      with Inr Cons.prems
        Cons.IH[of "st\<lparr>batch := batch st @ [chunk q],
                        rowIndices := rowIndices st @ [rowIndex q]\<rparr>" sq True]
      show ?thesis by (simp add: resolvedNow_def)
    next
      case False
      with Inr Cons.prems Cons.IH[of st "sq @ [q]" mp]
      show ?thesis by (simp add: resolvedNow_def)
    qed
  qed
qed

lemma drainPass_char:
  "drainPass db ts mp = Inr (ts', mp') \<Longrightarrow>
     ts' = map (\<lambda>(tn, st). (tn, drainedTable db st)) ts
     \<and> mp' = (mp \<or> (\<exists>(tn, st) \<in> set ts. \<exists>q \<in> set (queue st). resolvedNow db q))"
proof (induction ts arbitrary: mp ts' mp')
  case Nil
  then show ?case by simp
next
  case (Cons p ts)
  obtain tn st where p: "p = (tn, st)" by (cases p)
  from Cons.prems p obtain st1 sq1 mp1 where
    dq: "drainQueue db (queue st) st [] mp = Inr (st1, sq1, mp1)"
    by (auto split: sum.splits)
  with Cons.prems p obtain ts1 mp2 where
    dp: "drainPass db ts mp1 = Inr (ts1, mp2)" and
    res: "ts' = (tn, st1\<lparr>queue := sq1\<rparr>) # ts1" "mp' = mp2"
    by (auto split: sum.splits)
  from drainQueue_char[OF dq] Cons.IH[OF dp] res p
  show ?case by (auto simp: drainedTable_def)
qed

lemma totalQueued_Cons:
  "totalQueued ((tn, st) # ts) = length (queue st) + totalQueued ts"
  by (simp add: totalQueued_def)

lemma queue_drainedTable:
  "queue (drainedTable db st) = filter (\<lambda>q. \<not> resolvedNow db q) (queue st)"
  by (simp add: drainedTable_def)

lemma totalQueued_drained_le:
  "totalQueued (map (\<lambda>(tn, st). (tn, drainedTable db st)) ts) \<le> totalQueued ts"
proof (induction ts)
  case Nil
  show ?case by (simp add: totalQueued_def)
next
  case (Cons p ts)
  obtain tn st where p: "p = (tn, st)" by (cases p)
  have "length (queue (drainedTable db st)) \<le> length (queue st)"
    by (simp add: queue_drainedTable)
  from add_le_mono[OF this Cons] p show ?case
    by (simp add: totalQueued_Cons)
qed

lemma totalQueued_drained_less:
  assumes "(tn, st) \<in> set ts" and "q \<in> set (queue st)" and "resolvedNow db q"
  shows "totalQueued (map (\<lambda>(tn, st). (tn, drainedTable db st)) ts) < totalQueued ts"
  using assms
proof (induction ts)
  case Nil
  then show ?case by simp
next
  case (Cons p ts)
  obtain tn' st' where p: "p = (tn', st')" by (cases p)
  have le: "length (queue (drainedTable db st')) \<le> length (queue st')"
    by (simp add: queue_drainedTable)
  show ?case
  proof (cases "(tn, st) = p")
    case True
    with Cons.prems p have "length (queue (drainedTable db st')) < length (queue st')"
      by (auto simp: queue_drainedTable intro: length_filter_less)
    from add_less_le_mono[OF this totalQueued_drained_le[of db ts]] p show ?thesis
      by (simp add: totalQueued_Cons)
  next
    case False
    with Cons have "totalQueued (map (\<lambda>(tn, st). (tn, drainedTable db st)) ts) < totalQueued ts"
      by auto
    from add_le_less_mono[OF le this] p show ?thesis
      by (simp add: totalQueued_Cons)
  qed
qed

lemma drainPass_progress_less:
  assumes "drainPass db ts False = Inr (ts', True)"
  shows "totalQueued ts' < totalQueued ts"
proof -
  from drainPass_char[OF assms] obtain tn st q where
    "ts' = map (\<lambda>(tn, st). (tn, drainedTable db st)) ts"
    "(tn, st) \<in> set ts" "q \<in> set (queue st)" "resolvedNow db q"
    by auto
  then show ?thesis
    using totalQueued_drained_less by blast
qed

termination drainLoop
  by (relation "measure (\<lambda>(db, ts, anyProgress). totalQueued ts)")
     (auto dest: drainPass_progress_less)

declare drainLoop.simps [simp del]

lemma totalQueued_update:
  "map_of ts tn = Some st \<Longrightarrow> queue st' = queue st \<Longrightarrow>
   totalQueued (AList.update tn st' ts) = totalQueued ts"
proof (induction ts)
  case Nil
  then show ?case by simp
next
  case (Cons p ts)
  obtain k v where p: "p = (k, v)" by (cases p)
  with Cons show ?case
    by (cases "k = tn") (auto simp: totalQueued_Cons)
qed

lemma flush_tableStates:
  assumes "flush sd tn e = (r, e')"
  shows "tableStates e' = tableStates e \<or>
         (\<exists>st. map_of (tableStates e) tn = Some st \<and> r = None \<and> batch st \<noteq> [] \<and>
               tableStates e' = AList.update tn
                 (st\<lparr>seededCount := seededCount st + length (batch st), batch := [], rowIndices := []\<rparr>)
                 (tableStates e))"
  using assms
  by (auto simp: flush_def Let_def split: option.splits if_splits sum.splits prod.splits)

lemma flush_totalQueued:
  assumes "flush sd tn e = (r, e')"
  shows "totalQueued (tableStates e') = totalQueued (tableStates e)"
  using flush_tableStates[OF assms] by (auto simp: totalQueued_update)

lemma flushAll_totalQueued:
  "flushAll sd tns e = (r, e') \<Longrightarrow> totalQueued (tableStates e') = totalQueued (tableStates e)"
proof (induction tns arbitrary: e)
  case Nil
  then show ?case by simp
next
  case (Cons tn tns)
  obtain r1 e1 where f: "flush sd tn e = (r1, e1)" by (cases "flush sd tn e")
  show ?case
  proof (cases r1)
    case None
    with Cons f show ?thesis by (simp add: flush_totalQueued)
  next
    case (Some err)
    with Cons f show ?thesis by (simp add: flush_totalQueued)
  qed
qed

lemma drainedTable_idem: "drainedTable db (drainedTable db st) = drainedTable db st"
  by (simp add: drainedTable_def)

lemma drainLoop_char:
  "drainLoop db ts a = Inr (ts', p) \<Longrightarrow>
     ts' = map (\<lambda>(tn, st). (tn, drainedTable db st)) ts
     \<and> p = (a \<or> (\<exists>(tn, st) \<in> set ts. \<exists>q \<in> set (queue st). resolvedNow db q))"
proof (induction db ts a arbitrary: ts' p rule: drainLoop.induct)
  case (1 db ts a)
  from "1.prems" obtain ts1 mp where dp: "drainPass db ts False = Inr (ts1, mp)"
    by (subst (asm) drainLoop.simps) (auto split: sum.splits)
  note ch = drainPass_char[OF dp]
  show ?case
  proof (cases mp)
    case True
    with dp "1.prems" have dl: "drainLoop db ts1 True = Inr (ts', p)"
      by (subst (asm) drainLoop.simps) simp
    have "ts' = map (\<lambda>(tn, st). (tn, drainedTable db st)) ts1 \<and> p"
      using "1.IH" dp True dl by auto
    with ch True show ?thesis
      by (auto simp: drainedTable_idem case_prod_unfold comp_def)
  next
    case False
    with dp "1.prems" have "ts' = ts1" "p = a"
      by (subst (asm) drainLoop.simps; simp)+
    with ch False show ?thesis by auto
  qed
qed

lemma drainAllQueues_char:
  "drainAllQueues ts db = Inr (ts', p) \<Longrightarrow>
     ts' = map (\<lambda>(tn, st). (tn, drainedTable db st)) ts
     \<and> p = (\<exists>(tn, st) \<in> set ts. \<exists>q \<in> set (queue st). resolvedNow db q)"
  unfolding drainAllQueues_def by (drule drainLoop_char) simp

lemma drainAllQueues_progress_less:
  assumes "drainAllQueues ts db = Inr (ts', True)"
  shows "totalQueued ts' < totalQueued ts"
proof -
  from drainAllQueues_char[OF assms] obtain tn st q where
    "ts' = map (\<lambda>(tn, st). (tn, drainedTable db st)) ts"
    "(tn, st) \<in> set ts" "q \<in> set (queue st)" "resolvedNow db q"
    by auto
  then show ?thesis
    using totalQueued_drained_less by blast
qed

termination finalDrainLoop
  apply (relation "measure (\<lambda>(sd, e). totalQueued (tableStates e))")
   apply simp
  apply (auto dest!: drainAllQueues_progress_less)
  apply (drule flushAll_totalQueued[OF sym])
  apply simp
  done

declare finalDrainLoop.simps [simp del]

section \<open>The drain is a fixpoint computation\<close>

lemma drainQueue_no_error:
  "drainQueue db qs st sq mp = Inr res \<Longrightarrow> q \<in> set qs \<Longrightarrow>
   \<exists>b. areAllRefsResolved (pendingRefs q) db = Inr b"
proof (induction qs arbitrary: st sq mp)
  case Nil
  then show ?case by simp
next
  case (Cons x qs)
  then show ?case
    by (cases "areAllRefsResolved (pendingRefs x) db") (auto split: bool.splits)
qed

lemma drainPass_no_error:
  "drainPass db ts mp = Inr res \<Longrightarrow> (tn, st) \<in> set ts \<Longrightarrow> q \<in> set (queue st) \<Longrightarrow>
   \<exists>b. areAllRefsResolved (pendingRefs q) db = Inr b"
proof (induction ts arbitrary: mp res)
  case Nil
  then show ?case by simp
next
  case (Cons p ts)
  obtain tn' st' where p: "p = (tn', st')" by (cases p)
  from Cons.prems p obtain r1 where
    dq: "drainQueue db (queue st') st' [] mp = Inr r1"
    by (auto split: sum.splits)
  obtain st1 sq1 mp1 where r1: "r1 = (st1, sq1, mp1)" by (cases r1)
  with dq Cons.prems p obtain r2 where dp: "drainPass db ts mp1 = Inr r2"
    by (auto split: sum.splits)
  from Cons.prems(2) p consider "(tn, st) = (tn', st')" | "(tn, st) \<in> set ts" by auto
  then show ?case
  proof cases
    case 1
    with dq Cons.prems(3) show ?thesis by (auto dest: drainQueue_no_error)
  next
    case 2
    from Cons.IH[OF dp 2 Cons.prems(3)] show ?thesis .
  qed
qed

lemma drainLoop_no_error:
  "drainLoop db ts a = Inr res \<Longrightarrow> (tn, st) \<in> set ts \<Longrightarrow> q \<in> set (queue st) \<Longrightarrow>
   \<exists>b. areAllRefsResolved (pendingRefs q) db = Inr b"
  by (subst (asm) drainLoop.simps) (auto split: sum.splits dest: drainPass_no_error)

lemma drainAllQueues_no_error:
  "drainAllQueues ts db = Inr res \<Longrightarrow> (tn, st) \<in> set ts \<Longrightarrow> q \<in> set (queue st) \<Longrightarrow>
   \<exists>b. areAllRefsResolved (pendingRefs q) db = Inr b"
  unfolding drainAllQueues_def by (rule drainLoop_no_error)

lemma drainQueue_stuck:
  "\<forall>q \<in> set qs. areAllRefsResolved (pendingRefs q) db = Inr False \<Longrightarrow>
   drainQueue db qs st sq mp = Inr (st, sq @ qs, mp)"
  by (induction qs arbitrary: sq) auto

lemma drainPass_stuck:
  "\<forall>(tn, st) \<in> set ts. \<forall>q \<in> set (queue st). areAllRefsResolved (pendingRefs q) db = Inr False \<Longrightarrow>
   drainPass db ts mp = Inr (ts, mp)"
proof (induction ts)
  case Nil
  show ?case by simp
next
  case (Cons p ts)
  obtain tn st where p: "p = (tn, st)" by (cases p)
  with Cons.prems have "drainQueue db (queue st) st [] mp = Inr (st, [] @ queue st, mp)"
    by (intro drainQueue_stuck) auto
  moreover from Cons have "drainPass db ts mp = Inr (ts, mp)" by auto
  ultimately show ?case using p by simp
qed

lemma drainAllQueues_stuck:
  assumes "\<forall>(tn, st) \<in> set ts. \<forall>q \<in> set (queue st). areAllRefsResolved (pendingRefs q) db = Inr False"
  shows "drainAllQueues ts db = Inr (ts, False)"
  unfolding drainAllQueues_def
  by (subst drainLoop.simps) (simp add: drainPass_stuck[OF assms])

lemma drainAllQueues_leaves_stuck:
  assumes "drainAllQueues ts db = Inr (ts', progress)"
    and "(tn, st) \<in> set ts'" and "q \<in> set (queue st)"
  shows "areAllRefsResolved (pendingRefs q) db = Inr False"
proof -
  from drainAllQueues_char[OF assms(1)]
  have ts': "ts' = map (\<lambda>(tn, st). (tn, drainedTable db st)) ts"
    by simp
  with assms(2) obtain st0 where st0: "(tn, st0) \<in> set ts" "st = drainedTable db st0"
    by auto
  with assms(3) have q0: "q \<in> set (queue st0)" and nr: "\<not> resolvedNow db q"
    by (auto simp: queue_drainedTable)
  from assms(1) st0 q0 obtain b where "areAllRefsResolved (pendingRefs q) db = Inr b"
    by (blast dest: drainAllQueues_no_error)
  with nr show ?thesis
    by (cases b) (auto simp: resolvedNow_def)
qed

text \<open>Data for a concrete drain: a store holding row 0 of table b, and a table a whose
  queue holds one chunk waiting for that row and one waiting for row 1.\<close>

definition ex_store :: refDatabase where
  "ex_store = \<lparr>db_tables = [(''b'', [''id''])],
               db_rows = [(''b'', 0) \<mapsto> [(''id'', JNum 7)]]\<rparr>"

definition ex_ref :: "int \<Rightarrow> columnValueReference" where
  "ex_ref i = \<lparr>refColumnName = ''id'', refTableName = ''b'', refRowIndex = i, transformFn = id\<rparr>"

definition ex_queued :: "int \<Rightarrow> int \<Rightarrow> queuedChunk" where
  "ex_queued i j = \<lparr>chunk = [(''x'', Reference (ex_ref j))], rowIndex = i, pendingRefs = [ex_ref j]\<rparr>"

definition ex_tables_before :: "(string \<times> tableState) list" where
  "ex_tables_before =
     [(''a'', \<lparr>batch = [], queue = [ex_queued 0 0, ex_queued 1 1], seededCount = 0,
              rowIndices = [], batchSize = 999, columnCount = 1\<rparr>)]"

definition ex_tables_after :: "(string \<times> tableState) list" where
  "ex_tables_after =
     [(''a'', \<lparr>batch = [[(''x'', Reference (ex_ref 0))]], queue = [ex_queued 1 1], seededCount = 0,
              rowIndices = [0], batchSize = 999, columnCount = 1\<rparr>)]"

text \<open>
  C9. Running \<open>drainAllQueues\<close> again on the tables a completed drain left, against the
  same store, changes no table (so no batch, queue or row-index list) and reports no
  progress.
\<close>

theorem drainAllQueues_idempotent:
  assumes "drainAllQueues ts db = Inr (ts', progress)"
  shows "drainAllQueues ts' db = Inr (ts', False)"
proof (rule drainAllQueues_stuck, clarify)
  fix tn st q
  assume "(tn, st) \<in> set ts'" and "q \<in> set (queue st)"
  with assms show "areAllRefsResolved (pendingRefs q) db = Inr False"
    by (rule drainAllQueues_leaves_stuck)
qed

theorem drainAllQueues_idempotent_witness:
  "drainAllQueues ex_tables_before ex_store = Inr (ex_tables_after, True) \<and>
   drainAllQueues ex_tables_after ex_store = Inr (ex_tables_after, False)"
proof -
  have first: "drainAllQueues ex_tables_before ex_store = Inr (ex_tables_after, True)"
    by (simp add: drainAllQueues_def drainLoop.simps ex_tables_before_def ex_tables_after_def
        ex_store_def ex_queued_def ex_ref_def refExists_def)
  from first drainAllQueues_idempotent[OF first] show ?thesis by simp
qed

section \<open>Resolution of a reference\<close>

text \<open>
  C6, as the claim states it, fails: for a reference whose target row has no entry in
  the store, \<open>resolveRef\<close> returns \<^verbatim>\<open>undefined\<close>; it raises nothing. Row 5 of table b is
  not in the example store.
\<close>

theorem resolveRef_missing_row_counterexample:
  "db_rows ex_store (refTableName (ex_ref 5), refRowIndex (ex_ref 5)) = None \<and>
   resolveRef (ex_ref 5) ex_store = Inr JUndefined"
  by (simp add: resolveRef_def ex_store_def ex_ref_def)

text \<open>
  C6, amended. For a reference to a table and column that the store declares:
  without an entry for the target row the result is \<^verbatim>\<open>undefined\<close>, and the transform
  function is not applied; with an entry that holds the column, the result is the
  transform function applied to the stored value.
\<close>

theorem resolveRef_result:
  assumes "map_of (db_tables db) (refTableName ref) = Some cols"
    and "refColumnName ref \<in> set cols"
  shows "(db_rows db (refTableName ref, refRowIndex ref) = None \<longrightarrow>
            resolveRef ref db = Inr JUndefined) \<and>
         (\<forall>r rawValue. db_rows db (refTableName ref, refRowIndex ref) = Some r \<and>
            map_of r (refColumnName ref) = Some rawValue \<longrightarrow>
            resolveRef ref db = Inr (transformFn ref rawValue))"
  using assms by (simp add: resolveRef_def)

theorem resolveRef_result_witness:
  "resolveRef (ex_ref 5) ex_store = Inr JUndefined \<and>
   resolveRef ((ex_ref 0)\<lparr>transformFn := (\<lambda>v. JStr ''seven'')\<rparr>) ex_store = Inr (JStr ''seven'')"
proof -
  have t: "map_of (db_tables ex_store) ''b'' = Some [''id'']"
    and c: "''id'' \<in> set [''id'']"
    and missing: "db_rows ex_store (''b'', 5) = None"
    and present: "db_rows ex_store (''b'', 0) = Some [(''id'', JNum 7)]"
    by (simp_all add: ex_store_def)
  have "resolveRef (ex_ref 5) ex_store = Inr JUndefined"
    using resolveRef_result[of ex_store "ex_ref 5" "[''id'']"] t c missing
    by (simp add: ex_ref_def)
  moreover have "resolveRef ((ex_ref 0)\<lparr>transformFn := (\<lambda>v. JStr ''seven'')\<rparr>) ex_store
      = Inr (JStr ''seven'')"
    using resolveRef_result[of ex_store "(ex_ref 0)\<lparr>transformFn := (\<lambda>v. JStr ''seven'')\<rparr>" "[''id'']"]
      t c present
    by (simp add: ex_ref_def)
  ultimately show ?thesis by simp
qed

section \<open>Invariants of a run\<close>

text \<open>
  Every step of a run after a chunk was accepted is a \<open>flush\<close> or a drain. A pair of
  predicates \<open>P\<close>, \<open>Q\<close> is maintained when both steps keep \<open>P\<close> as long as nothing is
  thrown and establish \<open>Q\<close> in any case; the loops of the engine then do the same.
\<close>

definition maintains :: "seeder \<Rightarrow> (engine \<Rightarrow> bool) \<Rightarrow> (engine \<Rightarrow> bool) \<Rightarrow> bool" where
  "maintains sd P Q \<longleftrightarrow>
     (\<forall>e. P e \<longrightarrow> Q e) \<and>
     (\<forall>tn e r e'. P e \<longrightarrow> flush sd tn e = (r, e') \<longrightarrow> Q e' \<and> (r = None \<longrightarrow> P e')) \<and>
     (\<forall>e d ts' p. P e \<longrightarrow> sqliteDb e = Some d \<longrightarrow>
        drainAllQueues (tableStates e) d = Inr (ts', p) \<longrightarrow> P (e\<lparr>tableStates := ts'\<rparr>))"

lemma maintainsD_weaken: "maintains sd P Q \<Longrightarrow> P e \<Longrightarrow> Q e"
  by (simp add: maintains_def)

lemma maintainsD_flush:
  "maintains sd P Q \<Longrightarrow> P e \<Longrightarrow> flush sd tn e = (r, e') \<Longrightarrow> Q e' \<and> (r = None \<longrightarrow> P e')"
  unfolding maintains_def by blast

lemma maintainsD_drain:
  "maintains sd P Q \<Longrightarrow> P e \<Longrightarrow> sqliteDb e = Some d \<Longrightarrow>
   drainAllQueues (tableStates e) d = Inr (ts', p) \<Longrightarrow> P (e\<lparr>tableStates := ts'\<rparr>)"
  unfolding maintains_def by blast

lemma maintains_flushAll:
  assumes m: "maintains sd P Q"
  shows "P e \<Longrightarrow> flushAll sd tns e = (r, e') \<Longrightarrow> Q e' \<and> (r = None \<longrightarrow> P e')"
proof (induction tns arbitrary: e)
  case Nil
  with m show ?case by (auto dest: maintainsD_weaken)
next
  case (Cons tn tns)
  obtain r1 e1 where f: "flush sd tn e = (r1, e1)" by (cases "flush sd tn e")
  note step = maintainsD_flush[OF m Cons.prems(1) f]
  show ?case
  proof (cases r1)
    case None
    with f Cons.prems(2) have "flushAll sd tns e1 = (r, e')" by simp
    with step None Cons.IH show ?thesis by blast
  next
    case (Some err)
    with f Cons.prems(2) step show ?thesis by auto
  qed
qed

lemma maintains_flushAllQueuesAfterDrainLoop:
  assumes m: "maintains sd P Q"
  shows "P e \<Longrightarrow> flushAllQueuesAfterDrainLoop sd tns e = (r, e') \<Longrightarrow>
         Q e' \<and> (r = None \<longrightarrow> P e')"
proof (induction tns arbitrary: e)
  case Nil
  with m show ?case by (auto dest: maintainsD_weaken)
next
  case (Cons tn tns)
  show ?case
  proof (cases "map_of (tableStates e) tn")
    case None
    with Cons show ?thesis by simp
  next
    case (Some st)
    show ?thesis
    proof (cases "enat (length (batch st)) \<ge> batchSize st")
      case False
      with Some Cons show ?thesis by simp
    next
      case True
      obtain r1 e1 where f: "flush sd tn e = (r1, e1)" by (cases "flush sd tn e")
      note step = maintainsD_flush[OF m Cons.prems(1) f]
      show ?thesis
      proof (cases r1)
        case (Some err)
        with f \<open>map_of (tableStates e) tn = Some st\<close> True Cons.prems(2) step
        show ?thesis by auto
      next
        case None
        with step have P1: "P e1" by simp
        show ?thesis
        proof (cases "sqliteDb e1")
          case None
          with f \<open>r1 = None\<close> \<open>map_of (tableStates e) tn = Some st\<close> True Cons.prems(2)
          have "flushAllQueuesAfterDrainLoop sd tns e1 = (r, e')" by simp
          with P1 Cons.IH show ?thesis by blast
        next
          case (Some d)
          show ?thesis
          proof (cases "drainAllQueues (tableStates e1) d")
            case (Inl err)
            with Some f \<open>r1 = None\<close> \<open>map_of (tableStates e) tn = Some st\<close> True Cons.prems(2)
            have "r = Some err" "e' = e1" by simp_all
            with P1 m show ?thesis by (auto dest: maintainsD_weaken)
          next
            case (Inr res)
            obtain ts' p where res: "res = (ts', p)" by (cases res)
            with Inr Some f \<open>r1 = None\<close> \<open>map_of (tableStates e) tn = Some st\<close> True Cons.prems(2)
            have "flushAllQueuesAfterDrainLoop sd tns (e1\<lparr>tableStates := ts'\<rparr>) = (r, e')"
              by simp
            moreover from maintainsD_drain[OF m P1 Some] Inr res
            have "P (e1\<lparr>tableStates := ts'\<rparr>)" by simp
            ultimately show ?thesis using Cons.IH by blast
          qed
        qed
      qed
    qed
  qed
qed

lemma maintains_flushIfFull:
  assumes m: "maintains sd P Q" and P: "P e" and run: "flushIfFull sd tn e = (r, e')"
  shows "Q e' \<and> (r = None \<longrightarrow> P e')"
proof (cases "enat (length (batch (the (map_of (tableStates e) tn)))) \<ge>
    batchSize (the (map_of (tableStates e) tn))")
  case False
  with run P m show ?thesis
    by (auto simp: flushIfFull_def Let_def dest: maintainsD_weaken)
next
  case True
  obtain r1 e1 where f: "flush sd tn e = (r1, e1)" by (cases "flush sd tn e")
  note step = maintainsD_flush[OF m P f]
  show ?thesis
  proof (cases r1)
    case (Some err)
    with f True run step show ?thesis by (auto simp: flushIfFull_def Let_def)
  next
    case None
    with step have P1: "P e1" by simp
    show ?thesis
    proof (cases "hasRefs sd \<and> sqliteDb e1 \<noteq> None")
      case False
      with f None True run have "r = None" "e' = e1"
        by (auto simp: flushIfFull_def Let_def split: option.splits)
      with P1 m show ?thesis by (auto dest: maintainsD_weaken)
    next
      case hr: True
      then obtain d where d: "sqliteDb e1 = Some d" by auto
      show ?thesis
      proof (cases "drainAllQueues (tableStates e1) d")
        case (Inl err)
        with d hr f None True run have "r = Some err" "e' = e1"
          by (auto simp: flushIfFull_def Let_def)
        with P1 m show ?thesis by (auto dest: maintainsD_weaken)
      next
        case (Inr res)
        obtain ts' p where res: "res = (ts', p)" by (cases res)
        with Inr d hr f None True run
        have "flushAllQueuesAfterDrain sd (e1\<lparr>tableStates := ts'\<rparr>) = (r, e')"
          by (auto simp: flushIfFull_def Let_def)
        moreover from maintainsD_drain[OF m P1 d] Inr res
        have "P (e1\<lparr>tableStates := ts'\<rparr>)" by simp
        ultimately show ?thesis
          unfolding flushAllQueuesAfterDrain_def
          using maintains_flushAllQueuesAfterDrainLoop[OF m] by blast
      qed
    qed
  qed
qed

lemma maintains_finalDrainLoop:
  "maintains sd P Q \<Longrightarrow> P e \<Longrightarrow> finalDrainLoop sd e = (r, e') \<Longrightarrow>
   Q e' \<and> (r = None \<longrightarrow> P e')"
proof (induction sd e rule: finalDrainLoop.induct)
  case (1 sd e)
  note m = "1.prems"(1) and Pe = "1.prems"(2) and run = "1.prems"(3)
  show ?case
  proof (cases "sqliteDb e")
    case None
    with run Pe m show ?thesis
      by (subst (asm) finalDrainLoop.simps) (auto dest: maintainsD_weaken)
  next
    case (Some d)
    show ?thesis
    proof (cases "drainAllQueues (tableStates e) d")
      case (Inl err)
      with Some run Pe m show ?thesis
        by (subst (asm) finalDrainLoop.simps) (auto dest: maintainsD_weaken)
    next
      case (Inr res)
      obtain ts' p where res: "res = (ts', p)" by (cases res)
      from maintainsD_drain[OF m Pe Some] Inr res
      have P1: "P (e\<lparr>tableStates := ts'\<rparr>)" by simp
      obtain r2 e2 where fa: "flushAll sd (map fst ts') (e\<lparr>tableStates := ts'\<rparr>) = (r2, e2)"
        by (cases "flushAll sd (map fst ts') (e\<lparr>tableStates := ts'\<rparr>)")
      note step = maintains_flushAll[OF m P1 fa]
      show ?thesis
      proof (cases r2)
        case (Some err)
        with fa Inr res \<open>sqliteDb e = Some d\<close> run have "r = Some err" "e' = e2"
          by (subst (asm) finalDrainLoop.simps; simp)+
        with step show ?thesis by simp
      next
        case None
        show ?thesis
        proof (cases p)
          case False
          with None fa Inr res \<open>sqliteDb e = Some d\<close> run have "r = None" "e' = e2"
            by (subst (asm) finalDrainLoop.simps; simp)+
          with step None show ?thesis by simp
        next
          case True
          with None fa Inr res \<open>sqliteDb e = Some d\<close> run
          have "finalDrainLoop sd e2 = (r, e')"
            by (subst (asm) finalDrainLoop.simps) simp
          moreover from step None have "P e2" by simp
          ultimately show ?thesis
            using "1.IH"[OF \<open>sqliteDb e = Some d\<close> Inr res[symmetric] fa[symmetric] None True m]
            by blast
        qed
      qed
    qed
  qed
qed

lemma maintains_finalDrain:
  assumes m: "maintains sd P Q" and P: "P e" and run: "finalDrain sd e = (r, e')"
  shows "Q e' \<and> (r = None \<longrightarrow> P e')"
proof -
  obtain r1 e1 where fa: "flushAll sd (map fst (tableStates e)) e = (r1, e1)"
    by (cases "flushAll sd (map fst (tableStates e)) e")
  note s1 = maintains_flushAll[OF m P fa]
  show ?thesis
  proof (cases r1)
    case (Some err)
    with fa run s1 show ?thesis by (simp add: finalDrain_def)
  next
    case None
    with s1 have P1: "P e1" by simp
    show ?thesis
    proof (cases "hasRefs sd")
      case True
      with fa None run have "finalDrainLoop sd e1 = (r, e')" by (simp add: finalDrain_def)
      with maintains_finalDrainLoop[OF m P1] show ?thesis by simp
    next
      case False
      with fa None run have "r = None" "e' = e1" by (simp_all add: finalDrain_def)
      with P1 m show ?thesis by (auto dest: maintainsD_weaken)
    qed
  qed
qed

lemma maintains_finalize:
  assumes m: "maintains sd P Q" and P: "P e" and run: "finalize sd e = (r, e')"
  shows "Q e' \<and> (r = None \<longrightarrow> P e')"
proof -
  obtain r1 e1 where fd: "finalDrain sd e = (r1, e1)" by (cases "finalDrain sd e")
  note s1 = maintains_finalDrain[OF m P fd]
  show ?thesis
  proof (cases r1)
    case (Some err)
    with fd run s1 show ?thesis by (simp add: finalize_def)
  next
    case None
    with fd run have "checkStuck e1 = (r, e')" by (simp add: finalize_def)
    then have "e' = e1" by (simp add: checkStuck_def split: if_splits)
    with s1 None show ?thesis by simp
  qed
qed

lemma maintains_processStream:
  assumes m: "\<And>cs. maintains sd (P cs) (Q cs)"
    and acc: "\<And>cs x e r e'. P cs e \<Longrightarrow> acceptChunk sd x e = (r, e') \<Longrightarrow>
               Q (cs @ [x]) e' \<and> (r = None \<longrightarrow> P (cs @ [x]) e')"
    and mono: "\<And>cs xs e. Q cs e \<Longrightarrow> Q (cs @ xs) e"
  shows "P cs e \<Longrightarrow> processStream sd xs e = (r, e') \<Longrightarrow>
         Q (cs @ xs) e' \<and> (r = None \<longrightarrow> P (cs @ xs) e')"
proof (induction xs arbitrary: cs e)
  case Nil
  with m show ?case by (auto dest: maintainsD_weaken)
next
  case (Cons x xs)
  obtain r1 e1 where a: "acceptChunk sd x e = (r1, e1)" by (cases "acceptChunk sd x e")
  note s1 = acc[OF Cons.prems(1) a]
  have app: "cs @ x # xs = (cs @ [x]) @ xs" by simp
  show ?case
  proof (cases r1)
    case (Some err)
    with a Cons.prems(2) have "r = Some err" "e' = e1" by (simp_all add: processChunk_def)
    with s1 mono[of "cs @ [x]" e1 xs] show ?thesis by simp
  next
    case None
    with s1 have P1: "P (cs @ [x]) e1" by simp
    obtain r2 e2 where f: "flushIfFull sd (fst x) e1 = (r2, e2)"
      by (cases "flushIfFull sd (fst x) e1")
    note s2 = maintains_flushIfFull[OF m P1 f]
    show ?thesis
    proof (cases r2)
      case (Some err)
      with a None f Cons.prems(2) have "r = Some err" "e' = e2" by (simp_all add: processChunk_def)
      with s2 mono[of "cs @ [x]" e2 xs] show ?thesis by simp
    next
      case n2: None
      with a None f Cons.prems(2) have "processStream sd xs e2 = (r, e')"
        by (simp add: processChunk_def)
      with s2 n2 Cons.IH[of "cs @ [x]" e2] show ?thesis by (simp only: app) simp
    qed
  qed
qed

lemma maintains_executeBody:
  assumes m: "\<And>cs. maintains sd (P cs) (Q cs)"
    and acc: "\<And>cs x e r e'. P cs e \<Longrightarrow> acceptChunk sd x e = (r, e') \<Longrightarrow>
               Q (cs @ [x]) e' \<and> (r = None \<longrightarrow> P (cs @ [x]) e')"
    and mono: "\<And>cs xs e. Q cs e \<Longrightarrow> Q (cs @ xs) e"
    and init: "P [] (initialEngine sd)"
    and run: "executeBody sd generator = (r, e')"
  shows "Q generator e' \<and> (r = None \<longrightarrow> P generator e')"
proof -
  obtain r1 e1 where ps: "processStream sd generator (initialEngine sd) = (r1, e1)"
    by (cases "processStream sd generator (initialEngine sd)")
  from maintains_processStream[of sd P Q, OF m acc mono init ps]
  have s1: "Q generator e1 \<and> (r1 = None \<longrightarrow> P generator e1)" by simp
  show ?thesis
  proof (cases r1)
    case (Some err)
    with ps run s1 show ?thesis by (simp add: executeBody_def)
  next
    case None
    with ps run have "finalize sd e1 = (r, e')" by (simp add: executeBody_def)
    with s1 None maintains_finalize[OF m] show ?thesis by blast
  qed
qed

text \<open>
  The rows of a stream. The chunks of table \<open>tn\<close> are numbered from 0 in stream order;
  \<open>isRow cs tn i c\<close> says that row \<open>i\<close> of table \<open>tn\<close> in the stream \<open>cs\<close> is the chunk \<open>c\<close>.
\<close>

definition chunksOf :: "(string \<times> chunk) list \<Rightarrow> string \<Rightarrow> chunk list" where
  "chunksOf cs tn = map snd (filter (\<lambda>x. fst x = tn) cs)"

definition isRow :: "(string \<times> chunk) list \<Rightarrow> string \<Rightarrow> int \<Rightarrow> chunk \<Rightarrow> bool" where
  "isRow cs tn i c \<longleftrightarrow> 0 \<le> i \<and> nat i < length (chunksOf cs tn) \<and> chunksOf cs tn ! nat i = c"

text \<open>The row numbers the external target received for a table, and those a table's
  batch and queue hold.\<close>

definition loggedRows :: "insertCall list \<Rightarrow> string \<Rightarrow> int multiset" where
  "loggedRows calls tn = mset (concat (map ic_rowIndices (filter (\<lambda>call. ic_table call = tn) calls)))"

definition heldRows :: "(string \<times> tableState) list \<Rightarrow> string \<Rightarrow> int multiset" where
  "heldRows ts tn =
     (case map_of ts tn of
        None \<Rightarrow> {#}
      | Some st \<Rightarrow> mset (rowIndices st) + mset (map rowIndex (queue st)))"

definition persisted :: "insertCall list \<Rightarrow> string \<Rightarrow> int \<Rightarrow> bool" where
  "persisted calls tn i \<longleftrightarrow> (\<exists>call \<in> set calls. ic_table call = tn \<and> i \<in> set (ic_rowIndices call))"

text \<open>Every reference of every chunk of a call targets a row of an earlier call.\<close>

definition dependencyOrdered :: "insertCall list \<Rightarrow> bool" where
  "dependencyOrdered calls \<longleftrightarrow>
     (\<forall>k < length calls. \<forall>c \<in> set (ic_chunks (calls ! k)). \<forall>r \<in> set (extractRefs c).
        persisted (take k calls) (refTableName r) (refRowIndex r))"

definition callOK :: "(string \<times> chunk) list \<Rightarrow> insertCall \<Rightarrow> bool" where
  "callOK cs call \<longleftrightarrow>
     length (ic_chunks call) = length (ic_rowIndices call) \<and>
     length (ic_rows call) = length (ic_rowIndices call) \<and>
     (\<forall>(i, c) \<in> set (zip (ic_rowIndices call) (ic_chunks call)). isRow cs (ic_table call) i c)"

definition logOK :: "(string \<times> chunk) list \<Rightarrow> insertCall list \<Rightarrow> bool" where
  "logOK cs calls \<longleftrightarrow> (\<forall>call \<in> set calls. callOK cs call) \<and> dependencyOrdered calls"

definition queuedOK :: "(string \<times> chunk) list \<Rightarrow> string \<Rightarrow> queuedChunk \<Rightarrow> bool" where
  "queuedOK cs tn q \<longleftrightarrow>
     isRow cs tn (rowIndex q) (chunk q) \<and> pendingRefs q = extractRefs (chunk q) \<and>
     pendingRefs q \<noteq> []"

definition batchEligible :: "seeder \<Rightarrow> refDatabase option \<Rightarrow> chunk \<Rightarrow> bool" where
  "batchEligible sd db c \<longleftrightarrow>
     (hasRefs sd \<longrightarrow>
        (\<forall>r \<in> set (extractRefs c).
           \<exists>d. db = Some d \<and> db_rows d (refTableName r, refRowIndex r) \<noteq> None))"

definition tableOK :: "seeder \<Rightarrow> (string \<times> chunk) list \<Rightarrow> refDatabase option \<Rightarrow> string
    \<Rightarrow> tableState \<Rightarrow> bool" where
  "tableOK sd cs db tn st \<longleftrightarrow>
     length (batch st) = length (rowIndices st) \<and>
     (\<forall>(i, c) \<in> set (zip (rowIndices st) (batch st)). isRow cs tn i c) \<and>
     (\<forall>q \<in> set (queue st). queuedOK cs tn q) \<and>
     (\<forall>c \<in> set (batch st). batchEligible sd db c)"

definition storeOK :: "refDatabase option \<Rightarrow> insertCall list \<Rightarrow> bool" where
  "storeOK db calls \<longleftrightarrow>
     (\<forall>d tn i. db = Some d \<longrightarrow> db_rows d (tn, i) \<noteq> None \<longrightarrow> persisted calls tn i)"

definition engineInv :: "seeder \<Rightarrow> (string \<times> chunk) list \<Rightarrow> engine \<Rightarrow> bool" where
  "engineInv sd cs e \<longleftrightarrow>
     distinct (map fst (tableStates e)) \<and>
     (\<forall>tn. rowIndexByTable e tn =
        (if tn \<in> fst ` set (tableStates e) then Some (int (length (chunksOf cs tn))) else None)) \<and>
     (\<forall>tn. tn \<notin> fst ` set (tableStates e) \<longrightarrow> chunksOf cs tn = []) \<and>
     (if hasRefs sd then sqliteDb e \<noteq> None else sqliteDb e = None) \<and>
     (\<forall>tn. loggedRows (inserted e) tn + heldRows (tableStates e) tn =
        mset (map int [0..<length (chunksOf cs tn)])) \<and>
     (\<forall>tn st. map_of (tableStates e) tn = Some st \<longrightarrow> tableOK sd cs (sqliteDb e) tn st) \<and>
     logOK cs (inserted e) \<and>
     storeOK (sqliteDb e) (inserted e) \<and>
     (\<not> hasRefs sd \<longrightarrow>
        (\<forall>call \<in> set (inserted e). \<forall>c \<in> set (ic_chunks call). extractRefs c = []))"

lemma chunksOf_append: "chunksOf (cs @ xs) tn = chunksOf cs tn @ chunksOf xs tn"
  by (simp add: chunksOf_def)

lemma isRow_append: "isRow cs tn i c \<Longrightarrow> isRow (cs @ xs) tn i c"
  by (auto simp: isRow_def chunksOf_append nth_append)

lemma isRow_new: "isRow (cs @ [(tn, c)]) tn (int (length (chunksOf cs tn))) c"
  by (simp add: isRow_def chunksOf_append chunksOf_def nth_append)

lemma isRow_unique: "isRow cs tn i c \<Longrightarrow> isRow cs tn i c' \<Longrightarrow> c = c'"
  by (auto simp: isRow_def)

lemma persisted_append:
  "persisted (calls @ [call]) tn i \<longleftrightarrow>
     persisted calls tn i \<or> (ic_table call = tn \<and> i \<in> set (ic_rowIndices call))"
  by (auto simp: persisted_def)

lemma dependencyOrdered_append:
  "dependencyOrdered (calls @ [call]) \<longleftrightarrow>
     dependencyOrdered calls \<and>
     (\<forall>c \<in> set (ic_chunks call). \<forall>r \<in> set (extractRefs c).
        persisted calls (refTableName r) (refRowIndex r))"
  by (auto simp: dependencyOrdered_def less_Suc_eq nth_append all_conj_distrib)

lemma callOK_append: "callOK cs call \<Longrightarrow> callOK (cs @ xs) call"
  by (auto simp: callOK_def intro: isRow_append)

lemma logOK_append: "logOK cs calls \<Longrightarrow> logOK (cs @ xs) calls"
  by (auto simp: logOK_def intro: callOK_append)

lemma loggedRows_append:
  "loggedRows (calls @ [call]) tn =
     loggedRows calls tn + (if ic_table call = tn then mset (ic_rowIndices call) else {#})"
  by (simp add: loggedRows_def)

lemma areAllRefsResolved_True:
  "areAllRefsResolved refs d = Inr True \<Longrightarrow> r \<in> set refs \<Longrightarrow>
   db_rows d (refTableName r, refRowIndex r) \<noteq> None"
proof (induction refs)
  case Nil
  then show ?case by simp
next
  case (Cons x refs)
  then show ?case
    by (auto simp: refExists_def split: sum.splits bool.splits option.splits if_splits)
qed

lemma resolveChunk_no_store: "resolveChunk c None = Inr r \<Longrightarrow> extractRefs c = []"
proof (induction c arbitrary: r)
  case Nil
  then show ?case by simp
next
  case (Cons x c)
  obtain k v where x: "x = (k, v)" by (cases x)
  with Cons show ?case
    by (cases v) (auto split: sum.splits if_splits)
qed

lemma resolveBatch_no_store:
  "resolveBatch cs None = Inr rs \<Longrightarrow> c \<in> set cs \<Longrightarrow> extractRefs c = []"
  by (induction cs arbitrary: rs) (auto split: sum.splits dest: resolveChunk_no_store)

lemma resolveBatch_length: "resolveBatch cs db = Inr rs \<Longrightarrow> length rs = length cs"
  by (induction cs arbitrary: rs) (auto split: sum.splits)

lemma storeRows_facts:
  "storeRows tn cols xs d = (r, d') \<Longrightarrow>
     (\<forall>k. db_rows d k \<noteq> None \<longrightarrow> db_rows d' k \<noteq> None) \<and>
     (\<forall>k. db_rows d' k \<noteq> None \<longrightarrow> db_rows d k \<noteq> None \<or> (\<exists>i \<in> snd ` set xs. k = (tn, i)))"
proof (induction xs arbitrary: d)
  case Nil
  then show ?case by simp
next
  case (Cons x xs)
  obtain c i where x: "x = (c, i)" by (cases x)
  show ?case
  proof (cases "stringifyAll (map (chunkGet c) cols)")
    case (Inl err)
    with Cons.prems x show ?thesis by simp
  next
    case (Inr vals)
    show ?thesis
    proof (cases "db_rows d (tn, i) \<noteq> None")
      case True
      with Inr Cons.prems x show ?thesis by auto
    next
      case False
      with Inr Cons.prems x
      have "storeRows tn cols xs (d\<lparr>db_rows := (db_rows d)((tn, i) \<mapsto> zip cols vals)\<rparr>) = (r, d')"
        by simp
      from Cons.IH[OF this]
      have ih: "\<forall>k. ((db_rows d)((tn, i) \<mapsto> zip cols vals)) k \<noteq> None \<longrightarrow> db_rows d' k \<noteq> None"
        "\<forall>k. db_rows d' k \<noteq> None \<longrightarrow>
           ((db_rows d)((tn, i) \<mapsto> zip cols vals)) k \<noteq> None \<or> (\<exists>j \<in> snd ` set xs. k = (tn, j))"
        by simp_all
      have a: "\<forall>k. db_rows d k \<noteq> None \<longrightarrow> ((db_rows d)((tn, i) \<mapsto> zip cols vals)) k \<noteq> None"
        by simp
      have b: "\<forall>k. ((db_rows d)((tn, i) \<mapsto> zip cols vals)) k \<noteq> None \<longrightarrow>
          db_rows d k \<noteq> None \<or> k = (tn, i)"
        by simp
      have "\<forall>k. db_rows d k \<noteq> None \<longrightarrow> db_rows d' k \<noteq> None"
        using ih(1) a by blast
      moreover have "\<forall>k. db_rows d' k \<noteq> None \<longrightarrow>
          db_rows d k \<noteq> None \<or> (\<exists>j \<in> snd ` set (x # xs). k = (tn, j))"
      proof (intro allI impI)
        fix k assume "db_rows d' k \<noteq> None"
        with ih(2) have "((db_rows d)((tn, i) \<mapsto> zip cols vals)) k \<noteq> None \<or>
            (\<exists>j \<in> snd ` set xs. k = (tn, j))" by blast
        with b have "db_rows d k \<noteq> None \<or> k = (tn, i) \<or> (\<exists>j \<in> snd ` set xs. k = (tn, j))"
          by blast
        with x show "db_rows d k \<noteq> None \<or> (\<exists>j \<in> snd ` set (x # xs). k = (tn, j))"
          by auto
      qed
      ultimately show ?thesis by blast
    qed
  qed
qed

lemma recordRefColumns_facts:
  assumes "recordRefColumns sd tn st db = (r, db')"
  shows "(db = None \<longleftrightarrow> db' = None) \<and>
     (\<forall>d k. db = Some d \<longrightarrow> db_rows d k \<noteq> None \<longrightarrow> (\<exists>d'. db' = Some d' \<and> db_rows d' k \<noteq> None)) \<and>
     (\<forall>d' k. db' = Some d' \<longrightarrow> db_rows d' k \<noteq> None \<longrightarrow>
        (\<exists>d. db = Some d \<and> (db_rows d k \<noteq> None \<or> (\<exists>i \<in> set (rowIndices st). k = (tn, i)))))"
proof (cases db)
  case None
  with assms show ?thesis by (simp add: recordRefColumns_def)
next
  case (Some d)
  show ?thesis
  proof (cases "\<exists>cols. map_of (refsConfig sd) tn = Some cols \<and> cols \<noteq> []")
    case False
    with Some assms have "db' = Some d"
      by (auto simp: recordRefColumns_def split: option.splits if_splits)
    with Some show ?thesis by simp
  next
    case True
    then obtain cols where cols: "map_of (refsConfig sd) tn = Some cols" "cols \<noteq> []" by auto
    obtain r1 d1 where sr: "storeRows tn cols (zip (batch st) (rowIndices st)) d = (r1, d1)"
      by (cases "storeRows tn cols (zip (batch st) (rowIndices st)) d")
    with cols Some assms have db': "db' = Some d1"
      by (simp add: recordRefColumns_def)
    have "snd ` set (zip (batch st) (rowIndices st)) \<subseteq> set (rowIndices st)"
      by (auto dest: set_zip_rightD)
    with storeRows_facts[OF sr] Some db' show ?thesis
      by (auto; blast)
  qed
qed

lemma engineInvD:
  assumes "engineInv sd cs e"
  shows "distinct (map fst (tableStates e))"
    and "\<And>tn. rowIndexByTable e tn =
        (if tn \<in> fst ` set (tableStates e) then Some (int (length (chunksOf cs tn))) else None)"
    and "\<And>tn. tn \<notin> fst ` set (tableStates e) \<Longrightarrow> chunksOf cs tn = []"
    and "if hasRefs sd then sqliteDb e \<noteq> None else sqliteDb e = None"
    and "\<And>tn. loggedRows (inserted e) tn + heldRows (tableStates e) tn =
        mset (map int [0..<length (chunksOf cs tn)])"
    and "\<And>tn st. map_of (tableStates e) tn = Some st \<Longrightarrow> tableOK sd cs (sqliteDb e) tn st"
    and "logOK cs (inserted e)"
    and "storeOK (sqliteDb e) (inserted e)"
    and "\<And>call c. \<not> hasRefs sd \<Longrightarrow> call \<in> set (inserted e) \<Longrightarrow> c \<in> set (ic_chunks call) \<Longrightarrow>
        extractRefs c = []"
  using assms unfolding engineInv_def by blast+

lemma flush_cases [consumes 1, case_names noop flushed failed]:
  assumes "flush sd tn e = (r, e')"
  obtains
    (noop) "e' = e"
  | (flushed) st rows db' where "r = None" "map_of (tableStates e) tn = Some st" "batch st \<noteq> []"
      "resolveBatch (batch st) (sqliteDb e) = Inr rows"
      "recordRefColumns sd tn st (sqliteDb e) = (None, db')"
      "e' = e\<lparr>inserted := inserted e @
                 [\<lparr>ic_table = tn, ic_rows = rows, ic_rowIndices = rowIndices st,
                   ic_chunks = batch st\<rparr>],
               sqliteDb := db',
               tableStates := AList.update tn
                 (st\<lparr>seededCount := seededCount st + length (batch st),
                     batch := [], rowIndices := []\<rparr>)
                 (tableStates e)\<rparr>"
  | (failed) st rows db' err where "r = Some err" "map_of (tableStates e) tn = Some st"
      "batch st \<noteq> []"
      "resolveBatch (batch st) (sqliteDb e) = Inr rows"
      "recordRefColumns sd tn st (sqliteDb e) = (Some err, db')"
      "e' = e\<lparr>inserted := inserted e @
                 [\<lparr>ic_table = tn, ic_rows = rows, ic_rowIndices = rowIndices st,
                   ic_chunks = batch st\<rparr>],
               sqliteDb := db'\<rparr>"
proof (cases "map_of (tableStates e) tn")
  case None
  with assms noop show ?thesis by (simp add: flush_def)
next
  case (Some st)
  show ?thesis
  proof (cases "batch st = [] \<or> tn \<notin> set (schema sd)")
    case True
    with Some assms noop show ?thesis by (auto simp: flush_def split: if_splits)
  next
    case False
    show ?thesis
    proof (cases "resolveBatch (batch st) (sqliteDb e)")
      case (Inl err)
      with False Some assms noop show ?thesis by (simp add: flush_def)
    next
      case (Inr rows)
      show ?thesis
      proof (cases "dbInsert sd (inserted e) tn rows")
        case False
        with Inr \<open>\<not> (batch st = [] \<or> tn \<notin> set (schema sd))\<close> Some assms noop
        show ?thesis by (simp add: flush_def)
      next
        case True
        obtain r1 db' where rc: "recordRefColumns sd tn st (sqliteDb e) = (r1, db')"
          by (cases "recordRefColumns sd tn st (sqliteDb e)")
        show ?thesis
        proof (cases r1)
          case None
          with rc True Inr False Some assms show ?thesis
            by (intro flushed[of st rows db']) (simp_all add: flush_def Let_def)
        next
          case (Some err)
          with rc True Inr False \<open>map_of (tableStates e) tn = Some st\<close> assms show ?thesis
            by (intro failed[of err st rows db']) (simp_all add: flush_def Let_def)
        qed
      qed
    qed
  qed
qed

lemma map_of_key: "map_of ts tn = Some st \<Longrightarrow> tn \<in> fst ` set ts"
  by (metis domI dom_map_of_conv_image_fst)

lemma recordRefColumns_mono:
  assumes "recordRefColumns sd tn st db = (r, db')" and "db = Some d" and "db_rows d k \<noteq> None"
  shows "\<exists>d'. db' = Some d' \<and> db_rows d' k \<noteq> None"
  using recordRefColumns_facts[OF assms(1)] assms(2,3) by blast

lemma recordRefColumns_new:
  assumes "recordRefColumns sd tn st db = (r, db')" and "db' = Some d'" and "db_rows d' k \<noteq> None"
  shows "\<exists>d. db = Some d \<and> (db_rows d k \<noteq> None \<or> (\<exists>i \<in> set (rowIndices st). k = (tn, i)))"
  using recordRefColumns_facts[OF assms(1)] assms(2,3) by blast

lemma recordRefColumns_None_iff:
  assumes "recordRefColumns sd tn st db = (r, db')"
  shows "db' = None \<longleftrightarrow> db = None"
  using recordRefColumns_facts[OF assms(1)] by blast

lemma batchEligible_store_mono:
  assumes ok: "batchEligible sd db c"
    and mono: "\<And>d k. db = Some d \<Longrightarrow> db_rows d k \<noteq> None \<Longrightarrow>
                 \<exists>d'. db' = Some d' \<and> db_rows d' k \<noteq> None"
  shows "batchEligible sd db' c"
  unfolding batchEligible_def
proof (intro impI ballI)
  fix r assume "hasRefs sd" "r \<in> set (extractRefs c)"
  with ok obtain d where "db = Some d" "db_rows d (refTableName r, refRowIndex r) \<noteq> None"
    unfolding batchEligible_def by blast
  then show "\<exists>d. db' = Some d \<and> db_rows d (refTableName r, refRowIndex r) \<noteq> None"
    by (rule mono)
qed

lemma tableOK_store_mono:
  assumes ok: "tableOK sd cs db tn st"
    and mono: "\<And>d k. db = Some d \<Longrightarrow> db_rows d k \<noteq> None \<Longrightarrow>
                 \<exists>d'. db' = Some d' \<and> db_rows d' k \<noteq> None"
  shows "tableOK sd cs db' tn st"
proof -
  from ok have a: "length (batch st) = length (rowIndices st)"
    "\<forall>(i, c) \<in> set (zip (rowIndices st) (batch st)). isRow cs tn i c"
    "\<forall>q \<in> set (queue st). queuedOK cs tn q"
    "\<forall>c \<in> set (batch st). batchEligible sd db c"
    unfolding tableOK_def by simp_all
  have "batchEligible sd db' c" if "c \<in> set (batch st)" for c
    using a(4) that by (intro batchEligible_store_mono[OF _ mono, of sd db c]) auto
  with a(1-3) show ?thesis
    unfolding tableOK_def by simp
qed

lemma flush_logOK:
  assumes inv: "engineInv sd cs e"
    and st: "map_of (tableStates e) tn = Some st"
    and rb: "resolveBatch (batch st) (sqliteDb e) = Inr rows"
  shows "logOK cs (inserted e @
           [\<lparr>ic_table = tn, ic_rows = rows, ic_rowIndices = rowIndices st, ic_chunks = batch st\<rparr>])"
proof -
  note tok = engineInvD(6)[OF inv st]
  have "callOK cs \<lparr>ic_table = tn, ic_rows = rows, ic_rowIndices = rowIndices st,
      ic_chunks = batch st\<rparr>"
    using tok resolveBatch_length[OF rb] by (simp add: callOK_def tableOK_def)
  moreover have "persisted (inserted e) (refTableName r) (refRowIndex r)"
    if c: "c \<in> set (batch st)" and r: "r \<in> set (extractRefs c)" for c r
  proof (cases "hasRefs sd")
    case True
    with tok c r obtain d where "sqliteDb e = Some d"
      "db_rows d (refTableName r, refRowIndex r) \<noteq> None"
      unfolding tableOK_def batchEligible_def by blast
    with engineInvD(8)[OF inv] show ?thesis unfolding storeOK_def by blast
  next
    case False
    with engineInvD(4)[OF inv] have "sqliteDb e = None" by simp
    with rb c have "extractRefs c = []" by (auto dest: resolveBatch_no_store)
    with r show ?thesis by simp
  qed
  ultimately show ?thesis
    using engineInvD(7)[OF inv] by (simp add: logOK_def dependencyOrdered_append)
qed

lemma flush_engineInv:
  assumes inv: "engineInv sd cs e" and run: "flush sd tn e = (r, e')"
  shows "logOK cs (inserted e') \<and> (r = None \<longrightarrow> engineInv sd cs e')"
  using run
proof (cases rule: flush_cases)
  case noop
  with inv show ?thesis by (simp add: engineInvD(7))
next
  case (failed st rows db' err)
  with flush_logOK[OF inv failed(2) failed(4)] show ?thesis by simp
next
  case (flushed st rows db')
  define call where "call = \<lparr>ic_table = tn, ic_rows = rows, ic_rowIndices = rowIndices st,
      ic_chunks = batch st\<rparr>"
  define st' where "st' = st\<lparr>seededCount := seededCount st + length (batch st),
      batch := [], rowIndices := []\<rparr>"
  have e': "tableStates e' = AList.update tn st' (tableStates e)"
    "inserted e' = inserted e @ [call]" "sqliteDb e' = db'"
    "rowIndexByTable e' = rowIndexByTable e"
    using flushed(6) by (simp_all add: call_def st'_def)
  note st = flushed(2)
  note rc = flushed(5)
  have keys: "fst ` set (tableStates e') = fst ` set (tableStates e)"
    using map_of_key[OF st] by (auto simp: e' AList.dom_update)
  have mo: "map_of (tableStates e') = (map_of (tableStates e))(tn \<mapsto> st')"
    by (simp add: e' AList.update_conv')
  have lo: "logOK cs (inserted e')"
    using flush_logOK[OF inv st flushed(4)] by (simp add: e' call_def)
  have i1: "distinct (map fst (tableStates e'))"
    using engineInvD(1)[OF inv] by (simp add: e' AList.distinct_update)
  have i2: "rowIndexByTable e' t =
      (if t \<in> fst ` set (tableStates e') then Some (int (length (chunksOf cs t))) else None)" for t
    using engineInvD(2)[OF inv, of t] keys e'(4) by simp
  have i3: "chunksOf cs t = []" if "t \<notin> fst ` set (tableStates e')" for t
    using engineInvD(3)[OF inv, of t] that keys by simp
  have i4: "if hasRefs sd then sqliteDb e' \<noteq> None else sqliteDb e' = None"
    using engineInvD(4)[OF inv] recordRefColumns_None_iff[OF rc] e'(3) by auto
  have i5: "loggedRows (inserted e') t + heldRows (tableStates e') t =
      mset (map int [0..<length (chunksOf cs t)])" for t
  proof (cases "t = tn")
    case True
    have "heldRows (tableStates e) tn = mset (rowIndices st) + mset (map rowIndex (queue st))"
      using st by (simp add: heldRows_def)
    moreover have "heldRows (tableStates e') tn = mset (map rowIndex (queue st))"
      by (simp add: heldRows_def mo st'_def)
    moreover have "loggedRows (inserted e') tn = loggedRows (inserted e) tn + mset (rowIndices st)"
      by (simp add: e' loggedRows_append call_def)
    ultimately show ?thesis
      using engineInvD(5)[OF inv, of tn] True by (simp add: ac_simps)
  next
    case False
    then have "heldRows (tableStates e') t = heldRows (tableStates e) t"
      by (simp add: heldRows_def mo)
    moreover from False have "loggedRows (inserted e') t = loggedRows (inserted e) t"
      by (simp add: e' loggedRows_append call_def)
    ultimately show ?thesis using engineInvD(5)[OF inv, of t] by simp
  qed
  have i6: "tableOK sd cs (sqliteDb e') t s" if s: "map_of (tableStates e') t = Some s" for t s
  proof (cases "t = tn")
    case True
    with s mo have "s = st'" by simp
    with engineInvD(6)[OF inv st] True show ?thesis
      by (auto simp: tableOK_def st'_def)
  next
    case False
    with s mo have "map_of (tableStates e) t = Some s" by simp
    show ?thesis
    proof (rule tableOK_store_mono[OF engineInvD(6)[OF inv \<open>map_of (tableStates e) t = Some s\<close>]])
      fix d k assume "sqliteDb e = Some d" "db_rows d k \<noteq> None"
      from recordRefColumns_mono[OF rc this]
      show "\<exists>d'. sqliteDb e' = Some d' \<and> db_rows d' k \<noteq> None"
        by (simp add: e'(3))
    qed
  qed
  have i8: "storeOK (sqliteDb e') (inserted e')"
    unfolding storeOK_def
  proof (intro allI impI)
    fix d' t i
    assume d': "sqliteDb e' = Some d'" and row: "db_rows d' (t, i) \<noteq> None"
    with recordRefColumns_new[OF rc, of d' "(t, i)"] e'(3) obtain d where d: "sqliteDb e = Some d"
      and "db_rows d (t, i) \<noteq> None \<or> (\<exists>j \<in> set (rowIndices st). (t, i) = (tn, j))"
      by auto
    then show "persisted (inserted e') t i"
    proof (elim disjE)
      assume "db_rows d (t, i) \<noteq> None"
      with d engineInvD(8)[OF inv] have "persisted (inserted e) t i"
        unfolding storeOK_def by blast
      then show ?thesis by (simp add: e' persisted_append)
    next
      assume "\<exists>j \<in> set (rowIndices st). (t, i) = (tn, j)"
      then show ?thesis by (auto simp: e' persisted_append call_def)
    qed
  qed
  have i9: "extractRefs c = []"
    if "\<not> hasRefs sd" "x \<in> set (inserted e')" "c \<in> set (ic_chunks x)" for x c
  proof (cases "x \<in> set (inserted e)")
    case True
    with that engineInvD(9)[OF inv] show ?thesis by blast
  next
    case False
    with that e'(2) have "c \<in> set (batch st)" by (auto simp: call_def)
    moreover from that(1) engineInvD(4)[OF inv] have "sqliteDb e = None" by simp
    ultimately show ?thesis
      using flushed(4) by (auto dest: resolveBatch_no_store)
  qed
  from i1 i2 i3 i4 i5 i6 lo i8 i9 have "engineInv sd cs e'"
    unfolding engineInv_def by blast
  with lo show ?thesis by simp
qed

lemma map_of_map_values:
  "map_of (map (\<lambda>(k, v). (k, f v)) xs) k = map_option f (map_of xs k)"
  by (induction xs) auto

lemma map_fst_map_values: "map fst (map (\<lambda>(k, v). (k, f v)) xs) = map fst xs"
  by (induction xs) auto

lemma zip_map_same: "zip (map f xs) (map g xs) = map (\<lambda>x. (f x, g x)) xs"
  by (induction xs) auto

lemma mset_map_filter_partition:
  "mset (map f (filter P xs)) + mset (map f (filter (\<lambda>x. \<not> P x) xs)) = mset (map f xs)"
  by (induction xs) auto

lemma heldRows_drained:
  "heldRows (map (\<lambda>(tn, st). (tn, drainedTable d st)) ts) t = heldRows ts t"
proof (cases "map_of ts t")
  case None
  then show ?thesis by (simp add: heldRows_def map_of_map_values)
next
  case (Some st)
  then show ?thesis
    using mset_map_filter_partition[of rowIndex "resolvedNow d" "queue st"]
    by (simp add: heldRows_def map_of_map_values drainedTable_def ac_simps)
qed

lemma tableOK_drained:
  assumes ok: "tableOK sd cs (Some d) tn st"
  shows "tableOK sd cs (Some d) tn (drainedTable d st)"
proof -
  let ?F = "filter (resolvedNow d) (queue st)"
  from ok have a: "length (batch st) = length (rowIndices st)"
    "\<forall>(i, c) \<in> set (zip (rowIndices st) (batch st)). isRow cs tn i c"
    "\<forall>q \<in> set (queue st). queuedOK cs tn q"
    "\<forall>c \<in> set (batch st). batchEligible sd (Some d) c"
    unfolding tableOK_def by simp_all
  have z: "zip (map rowIndex ?F) (map chunk ?F) = map (\<lambda>q. (rowIndex q, chunk q)) ?F"
    by (rule zip_map_same)
  have 1: "length (batch (drainedTable d st)) = length (rowIndices (drainedTable d st))"
    using a(1) by (simp add: drainedTable_def)
  have 2: "\<forall>(i, c) \<in> set (zip (rowIndices (drainedTable d st)) (batch (drainedTable d st))).
      isRow cs tn i c"
    using a(1,2,3) by (auto simp: drainedTable_def z queuedOK_def)
  have 3: "\<forall>q \<in> set (queue (drainedTable d st)). queuedOK cs tn q"
    using a(3) by (simp add: drainedTable_def)
  have "batchEligible sd (Some d) (chunk q)" if "q \<in> set ?F" for q
    unfolding batchEligible_def
  proof (intro impI ballI)
    fix r assume "r \<in> set (extractRefs (chunk q))"
    moreover from that a(3) have "pendingRefs q = extractRefs (chunk q)"
      by (simp add: queuedOK_def)
    moreover from that have "areAllRefsResolved (pendingRefs q) d = Inr True"
      by (simp add: resolvedNow_def)
    ultimately show "\<exists>d'. Some d = Some d' \<and> db_rows d' (refTableName r, refRowIndex r) \<noteq> None"
      using areAllRefsResolved_True by auto
  qed
  with a(4) have 4: "\<forall>c \<in> set (batch (drainedTable d st)). batchEligible sd (Some d) c"
    by (auto simp: drainedTable_def)
  from 1 2 3 4 show ?thesis unfolding tableOK_def by simp
qed

lemma drain_engineInv:
  assumes inv: "engineInv sd cs e" and d: "sqliteDb e = Some d"
    and run: "drainAllQueues (tableStates e) d = Inr (ts', p)"
  shows "engineInv sd cs (e\<lparr>tableStates := ts'\<rparr>)"
proof -
  from drainAllQueues_char[OF run]
  have ts': "ts' = map (\<lambda>(tn, st). (tn, drainedTable d st)) (tableStates e)" by simp
  have keys: "map fst ts' = map fst (tableStates e)"
    unfolding ts' by (rule map_fst_map_values)
  then have keyset: "fst ` set ts' = fst ` set (tableStates e)"
    by (metis list.set_map)
  have i6: "tableOK sd cs (Some d) t s" if s: "map_of ts' t = Some s" for t s
  proof -
    from s obtain s0 where "map_of (tableStates e) t = Some s0" "s = drainedTable d s0"
      by (auto simp: ts' map_of_map_values)
    with engineInvD(6)[OF inv, of t s0] d show ?thesis
      by (simp add: tableOK_drained)
  qed
  have i5: "loggedRows (inserted e) t + heldRows ts' t =
      mset (map int [0..<length (chunksOf cs t)])" for t
    using engineInvD(5)[OF inv, of t] by (simp add: ts' heldRows_drained)
  show ?thesis
    unfolding engineInv_def
    using engineInvD(1,4,7,8)[OF inv] engineInvD(2,3)[OF inv] keys keyset i5 i6 d
    by (simp split: if_splits)
qed

lemma engineInv_maintained: "maintains sd (engineInv sd cs) (\<lambda>e. logOK cs (inserted e))"
  unfolding maintains_def
  by (auto dest: flush_engineInv drain_engineInv simp: engineInvD(7))

lemma engineInv_initial: "engineInv sd [] (initialEngine sd)"
  by (simp add: engineInv_def initialEngine_def chunksOf_def loggedRows_def heldRows_def
      logOK_def dependencyOrdered_def storeOK_def createRefDatabase_def)

text \<open>The state of a table when one more chunk of it arrives: the one it has, or the new one.\<close>

definition tableStateAt :: "seeder \<Rightarrow> string \<Rightarrow> chunk \<Rightarrow> engine \<Rightarrow> tableState" where
  "tableStateAt sd tn c e =
     (case map_of (tableStates e) tn of None \<Rightarrow> newTableState sd c | Some st \<Rightarrow> st)"

lemma initTable_lookup:
  "map_of (tableStates (initTable sd tn c e)) tn = Some (tableStateAt sd tn c e)"
  by (auto simp: initTable_def tableStateAt_def AList.update_conv')

lemma initTable_update:
  "AList.update tn v (tableStates (initTable sd tn c e)) = AList.update tn v (tableStates e)"
  by (simp add: initTable_def)

lemma initTable_other:
  "inserted (initTable sd tn c e) = inserted e" "sqliteDb (initTable sd tn c e) = sqliteDb e"
  by (simp_all add: initTable_def)

lemma acceptChunk_cases [consumes 1, case_names batched queued failed]:
  assumes "acceptChunk sd (tn, c) e = (r, e')"
  obtains
    (batched) "r = None"
      "\<not> hasRefs sd \<or> extractRefs c = [] \<or>
         (\<exists>d. sqliteDb e = Some d \<and> areAllRefsResolved (extractRefs c) d = Inr True)"
      "e' = pushBatch tn c (the (rowIndexByTable (initTable sd tn c e) tn))
              ((initTable sd tn c e)\<lparr>rowIndexByTable :=
                 (rowIndexByTable (initTable sd tn c e))
                   (tn \<mapsto> the (rowIndexByTable (initTable sd tn c e) tn) + 1)\<rparr>)"
  | (queued) d where "r = None" "hasRefs sd" "extractRefs c \<noteq> []" "sqliteDb e = Some d"
      "areAllRefsResolved (extractRefs c) d = Inr False"
      "e' = pushQueue tn c (the (rowIndexByTable (initTable sd tn c e) tn)) (extractRefs c)
              ((initTable sd tn c e)\<lparr>rowIndexByTable :=
                 (rowIndexByTable (initTable sd tn c e))
                   (tn \<mapsto> the (rowIndexByTable (initTable sd tn c e) tn) + 1)\<rparr>)"
  | (failed) err where "r = Some err" "inserted e' = inserted e" "hasRefs sd" "extractRefs c \<noteq> []"
proof (cases "\<not> hasRefs sd \<or> extractRefs c = []")
  case True
  with assms show ?thesis
    by (intro batched) (auto simp: acceptChunk_def Let_def)
next
  case False
  show ?thesis
  proof (cases "sqliteDb e")
    case None
    with False assms show ?thesis
      by (intro failed[of TypeError]) (auto simp: acceptChunk_def Let_def initTable_other)
  next
    case (Some d)
    show ?thesis
    proof (cases "areAllRefsResolved (extractRefs c) d")
      case (Inl err)
      with Some False assms show ?thesis
        by (intro failed[of err]) (auto simp: acceptChunk_def Let_def initTable_other)
    next
      case (Inr b)
      show ?thesis
      proof (cases b)
        case True
        with Inr Some False assms show ?thesis
          by (intro batched) (auto simp: acceptChunk_def Let_def initTable_other)
      next
        case b: False
        with Inr Some False assms show ?thesis
          by (intro queued[of d]) (auto simp: acceptChunk_def Let_def initTable_other)
      qed
    qed
  qed
qed

lemma tableOK_append:
  assumes "tableOK sd cs db tn st"
  shows "tableOK sd (cs @ xs) db tn st"
  using assms unfolding tableOK_def queuedOK_def
  by (auto intro: isRow_append)

lemma chunksOf_snoc:
  "chunksOf (cs @ [(tn, c)]) t = (if t = tn then chunksOf cs tn @ [c] else chunksOf cs t)"
  by (simp add: chunksOf_def)

lemma tableOK_new: "tableOK sd cs db tn (newTableState sd c)"
  by (simp add: tableOK_def newTableState_def)

lemma accepted_engineInv:
  assumes inv: "engineInv sd cs e"
    and st': "tableOK sd (cs @ [(tn, c)]) (sqliteDb e) tn st'"
    and held: "mset (rowIndices st') + mset (map rowIndex (queue st')) =
        heldRows (tableStates e) tn + {#int (length (chunksOf cs tn))#}"
    and e': "tableStates e' = AList.update tn st' (tableStates e)"
      "rowIndexByTable e' = (rowIndexByTable e)(tn \<mapsto> int (length (chunksOf cs tn)) + 1)"
      "inserted e' = inserted e" "sqliteDb e' = sqliteDb e"
  shows "engineInv sd (cs @ [(tn, c)]) e'"
proof -
  let ?cs = "cs @ [(tn, c)]"
  have keyset: "fst ` set (tableStates e') = insert tn (fst ` set (tableStates e))"
    by (simp add: e' AList.dom_update)
  have mo: "map_of (tableStates e') = (map_of (tableStates e))(tn \<mapsto> st')"
    by (simp add: e' AList.update_conv')
  have i1: "distinct (map fst (tableStates e'))"
    using engineInvD(1)[OF inv] by (simp add: e' AList.distinct_update)
  have i2: "rowIndexByTable e' t =
      (if t \<in> fst ` set (tableStates e') then Some (int (length (chunksOf ?cs t))) else None)" for t
    using engineInvD(2)[OF inv, of t] by (simp add: keyset e'(2) chunksOf_snoc)
  have i3: "chunksOf ?cs t = []" if "t \<notin> fst ` set (tableStates e')" for t
    using engineInvD(3)[OF inv, of t] that by (simp add: keyset chunksOf_snoc)
  have i4: "if hasRefs sd then sqliteDb e' \<noteq> None else sqliteDb e' = None"
    using engineInvD(4)[OF inv] by (simp add: e')
  have i5: "loggedRows (inserted e') t + heldRows (tableStates e') t =
      mset (map int [0..<length (chunksOf ?cs t)])" for t
  proof (cases "t = tn")
    case True
    have "heldRows (tableStates e') tn =
        heldRows (tableStates e) tn + {#int (length (chunksOf cs tn))#}"
      using held by (simp add: heldRows_def mo)
    with engineInvD(5)[OF inv, of tn] True show ?thesis
      by (simp add: e'(3) chunksOf_snoc flip: add.assoc)
  next
    case False
    then have "heldRows (tableStates e') t = heldRows (tableStates e) t"
      by (simp add: heldRows_def mo)
    with engineInvD(5)[OF inv, of t] False show ?thesis
      by (simp add: e'(3) chunksOf_snoc)
  qed
  have i6: "tableOK sd ?cs (sqliteDb e') t s" if s: "map_of (tableStates e') t = Some s" for t s
  proof (cases "t = tn")
    case True
    with s mo st' show ?thesis by (simp add: e'(4))
  next
    case False
    with s mo have "map_of (tableStates e) t = Some s" by simp
    from tableOK_append[OF engineInvD(6)[OF inv this]] show ?thesis by (simp add: e'(4))
  qed
  have i7: "logOK ?cs (inserted e')"
    using logOK_append[OF engineInvD(7)[OF inv]] by (simp add: e'(3))
  have i8: "storeOK (sqliteDb e') (inserted e')"
    using engineInvD(8)[OF inv] by (simp add: e')
  have i9: "extractRefs c' = []"
    if "\<not> hasRefs sd" "x \<in> set (inserted e')" "c' \<in> set (ic_chunks x)" for x c'
    using engineInvD(9)[OF inv, of x c'] that by (simp add: e'(3))
  from i1 i2 i3 i4 i5 i6 i7 i8 i9 show ?thesis
    unfolding engineInv_def by blast
qed

lemma engineInv_rowIndex:
  assumes inv: "engineInv sd cs e"
  shows "the (rowIndexByTable (initTable sd tn c e) tn) = int (length (chunksOf cs tn))"
proof (cases "map_of (tableStates e) tn")
  case None
  then have "tn \<notin> fst ` set (tableStates e)"
    by (simp add: map_of_eq_None_iff)
  with engineInvD(3)[OF inv, of tn] None show ?thesis
    by (simp add: initTable_def)
next
  case (Some st)
  with engineInvD(2)[OF inv, of tn] map_of_key[OF Some] show ?thesis
    by (simp add: initTable_def)
qed

lemma engineInv_tableStateAt:
  assumes inv: "engineInv sd cs e"
  shows "tableOK sd cs (sqliteDb e) tn (tableStateAt sd tn c e)"
    and "mset (rowIndices (tableStateAt sd tn c e)) + mset (map rowIndex (queue (tableStateAt sd tn c e)))
        = heldRows (tableStates e) tn"
proof -
  show "tableOK sd cs (sqliteDb e) tn (tableStateAt sd tn c e)"
    using engineInvD(6)[OF inv, of tn] tableOK_new
    by (cases "map_of (tableStates e) tn") (simp_all add: tableStateAt_def)
  show "mset (rowIndices (tableStateAt sd tn c e)) + mset (map rowIndex (queue (tableStateAt sd tn c e)))
        = heldRows (tableStates e) tn"
    by (cases "map_of (tableStates e) tn") (simp_all add: tableStateAt_def heldRows_def newTableState_def)
qed

lemma acceptChunk_engineInv:
  assumes inv: "engineInv sd cs e" and run: "acceptChunk sd x e = (r, e')"
  shows "logOK (cs @ [x]) (inserted e') \<and> (r = None \<longrightarrow> engineInv sd (cs @ [x]) e')"
proof -
  obtain tn c where x: "x = (tn, c)" by (cases x)
  let ?st0 = "tableStateAt sd tn c e"
  let ?n = "int (length (chunksOf cs tn))"
  note idx = engineInv_rowIndex[OF inv, of tn c]
  note st0 = engineInv_tableStateAt[OF inv, of tn c]
  from st0(1) have a: "length (batch ?st0) = length (rowIndices ?st0)"
    "\<forall>(i, c) \<in> set (zip (rowIndices ?st0) (batch ?st0)). isRow (cs @ [x]) tn i c"
    "\<forall>q \<in> set (queue ?st0). queuedOK (cs @ [x]) tn q"
    "\<forall>c \<in> set (batch ?st0). batchEligible sd (sqliteDb e) c"
    using tableOK_append[OF st0(1), of "[x]"] unfolding tableOK_def by simp_all
  from run[unfolded x] show ?thesis
  proof (cases rule: acceptChunk_cases)
    case (failed err)
    with logOK_append[OF engineInvD(7)[OF inv]] show ?thesis by simp
  next
    case batched
    let ?st' = "?st0\<lparr>batch := batch ?st0 @ [c], rowIndices := rowIndices ?st0 @ [?n]\<rparr>"
    have e': "tableStates e' = AList.update tn ?st' (tableStates e)"
      "rowIndexByTable e' = (rowIndexByTable e)(tn \<mapsto> ?n + 1)"
      "inserted e' = inserted e" "sqliteDb e' = sqliteDb e"
      using batched(3) idx
      by (simp_all add: pushBatch_def Let_def initTable_lookup initTable_update initTable_other)
        (auto simp: initTable_def)
    have "batchEligible sd (sqliteDb e) c"
      using batched(2) unfolding batchEligible_def
      by (auto dest: areAllRefsResolved_True)
    with a have ok: "tableOK sd (cs @ [(tn, c)]) (sqliteDb e) tn ?st'"
      unfolding tableOK_def using isRow_new[of cs tn c] by (auto simp: x)
    have "engineInv sd (cs @ [(tn, c)]) e'"
      by (rule accepted_engineInv[OF inv ok _ e']) (simp add: st0(2)[symmetric])
    with x show ?thesis by (simp add: engineInvD(7))
  next
    case (queued d)
    let ?q = "\<lparr>chunk = c, rowIndex = ?n, pendingRefs = extractRefs c\<rparr>"
    let ?st' = "?st0\<lparr>queue := queue ?st0 @ [?q]\<rparr>"
    have e': "tableStates e' = AList.update tn ?st' (tableStates e)"
      "rowIndexByTable e' = (rowIndexByTable e)(tn \<mapsto> ?n + 1)"
      "inserted e' = inserted e" "sqliteDb e' = sqliteDb e"
      using queued(6) idx
      by (simp_all add: pushQueue_def Let_def initTable_lookup initTable_update initTable_other)
        (auto simp: initTable_def)
    have "queuedOK (cs @ [(tn, c)]) tn ?q"
      using queued(3) isRow_new[of cs tn c] by (simp add: queuedOK_def)
    with a have ok: "tableOK sd (cs @ [(tn, c)]) (sqliteDb e) tn ?st'"
      unfolding tableOK_def by (auto simp: x)
    have "engineInv sd (cs @ [(tn, c)]) e'"
      by (rule accepted_engineInv[OF inv ok _ e']) (simp add: st0(2)[symmetric])
    with x show ?thesis by (simp add: engineInvD(7))
  qed
qed

lemma executeBody_engineInv:
  assumes "executeBody sd generator = (r, e)"
  shows "logOK generator (inserted e) \<and> (r = None \<longrightarrow> engineInv sd generator e)"
  by (rule maintains_executeBody[where P = "engineInv sd" and Q = "\<lambda>cs e. logOK cs (inserted e)",
        OF engineInv_maintained acceptChunk_engineInv logOK_append engineInv_initial assms])

section \<open>Every row is persisted once, after the rows it refers to\<close>

definition cleared :: "engine \<Rightarrow> string set \<Rightarrow> bool" where
  "cleared e T \<longleftrightarrow> (\<forall>t \<in> T. \<forall>st. map_of (tableStates e) t = Some st \<longrightarrow> batch st = [])"

lemma flush_cleared:
  assumes "flush sd tn e = (r, e')" and "cleared e T"
  shows "cleared e' T"
  using assms(1)
proof (cases rule: flush_cases)
  case noop
  with assms(2) show ?thesis by simp
next
  case (flushed st rows db')
  with assms(2) show ?thesis
    by (auto simp: cleared_def AList.update_conv')
next
  case (failed st rows db' err)
  with assms(2) show ?thesis by (simp add: cleared_def)
qed

lemma flush_clears:
  assumes "flush sd tn e = (None, e')"
  shows "cleared e' {tn}"
  using assms
  by (auto simp: flush_def cleared_def Let_def AList.update_conv'
      split: option.splits if_splits sum.splits prod.splits)

lemma cleared_Un: "cleared e (A \<union> B) \<longleftrightarrow> cleared e A \<and> cleared e B"
  by (auto simp: cleared_def)

lemma flushAll_clears:
  "flushAll sd tns e = (None, e') \<Longrightarrow> cleared e T \<Longrightarrow> cleared e' (T \<union> set tns)"
proof (induction tns arbitrary: e T)
  case Nil
  then show ?case by simp
next
  case (Cons tn tns)
  obtain r1 e1 where f: "flush sd tn e = (r1, e1)" by (cases "flush sd tn e")
  with Cons.prems(1) have r1: "r1 = None" and rest: "flushAll sd tns e1 = (None, e')"
    by (auto split: option.splits)
  from flush_cleared[OF f Cons.prems(2)] flush_clears[OF f[unfolded r1]]
  have "cleared e1 (T \<union> {tn})" by (simp only: cleared_Un)
  from Cons.IH[OF rest this] show ?case by (simp add: Un_assoc)
qed

lemma flush_keys:
  assumes "flush sd tn e = (r, e')"
  shows "map fst (tableStates e') = map fst (tableStates e)"
  using assms
proof (cases rule: flush_cases)
  case (flushed st rows db')
  from map_of_key[OF flushed(2)] flushed(6) show ?thesis
    by (simp add: AList.update_keys)
qed simp_all

lemma flushAll_keys:
  "flushAll sd tns e = (r, e') \<Longrightarrow> map fst (tableStates e') = map fst (tableStates e)"
proof (induction tns arbitrary: e)
  case Nil
  then show ?case by simp
next
  case (Cons tn tns)
  obtain r1 e1 where f: "flush sd tn e = (r1, e1)" by (cases "flush sd tn e")
  with Cons flush_keys[OF f] show ?case
    by (cases r1) auto
qed

lemma cleared_keys:
  assumes "cleared e (set (map fst (tableStates e)))"
  shows "cleared e UNIV"
  unfolding cleared_def
proof (intro ballI allI impI)
  fix t st assume st: "map_of (tableStates e) t = Some st"
  from map_of_key[OF st] have "t \<in> set (map fst (tableStates e))" by simp
  with assms st show "batch st = []" unfolding cleared_def by blast
qed

lemma flushAll_clears_all:
  assumes "flushAll sd (map fst (tableStates e)) e = (None, e')"
  shows "cleared e' UNIV"
proof -
  have "cleared e {}" by (simp add: cleared_def)
  from flushAll_clears[OF assms this] flushAll_keys[OF assms]
  show ?thesis by (intro cleared_keys) simp
qed

lemma finalDrainLoop_clears:
  "finalDrainLoop sd e = (None, e') \<Longrightarrow> cleared e UNIV \<Longrightarrow> cleared e' UNIV"
proof (induction sd e rule: finalDrainLoop.induct)
  case (1 sd e)
  note run = "1.prems"(1)
  show ?case
  proof (cases "sqliteDb e")
    case None
    with run "1.prems"(2) show ?thesis
      by (subst (asm) finalDrainLoop.simps) simp
  next
    case (Some d)
    from run Some obtain ts' p where dr: "drainAllQueues (tableStates e) d = Inr (ts', p)"
      by (subst (asm) finalDrainLoop.simps) (auto split: sum.splits)
    obtain r2 e2 where fa: "flushAll sd (map fst ts') (e\<lparr>tableStates := ts'\<rparr>) = (r2, e2)"
      by (cases "flushAll sd (map fst ts') (e\<lparr>tableStates := ts'\<rparr>)")
    with run Some dr have r2: "r2 = None"
      by (subst (asm) finalDrainLoop.simps) (auto split: option.splits)
    from fa r2 have c2: "cleared e2 UNIV"
      using flushAll_clears_all[of sd "e\<lparr>tableStates := ts'\<rparr>" e2] by simp
    show ?thesis
    proof (cases p)
      case False
      with run Some dr fa r2 have "e' = e2"
        by (subst (asm) finalDrainLoop.simps) simp
      with c2 show ?thesis by simp
    next
      case True
      with run Some dr fa r2 have "finalDrainLoop sd e2 = (None, e')"
        by (subst (asm) finalDrainLoop.simps) simp
      from "1.IH"[OF Some dr refl fa[symmetric] r2 True this c2]
      show ?thesis .
    qed
  qed
qed

lemma finalDrain_clears:
  assumes "finalDrain sd e = (None, e')"
  shows "cleared e' UNIV"
proof -
  obtain r1 e1 where fa: "flushAll sd (map fst (tableStates e)) e = (r1, e1)"
    by (cases "flushAll sd (map fst (tableStates e)) e")
  with assms have r1: "r1 = None"
    by (auto simp: finalDrain_def split: option.splits)
  with fa have c1: "cleared e1 UNIV" by (simp add: flushAll_clears_all)
  show ?thesis
  proof (cases "hasRefs sd")
    case True
    with fa r1 assms have "finalDrainLoop sd e1 = (None, e')" by (simp add: finalDrain_def)
    from finalDrainLoop_clears[OF this c1] show ?thesis .
  next
    case False
    with fa r1 assms c1 show ?thesis by (simp add: finalDrain_def)
  qed
qed

lemma checkStuck_None:
  assumes "checkStuck e = (None, e')"
  shows "e' = e" and "\<forall>(tn, st) \<in> set (tableStates e). queue st = []"
  using assms by (auto simp: checkStuck_def list_ex_iff split: if_splits)

lemma executeBody_success:
  assumes "executeBody sd generator = (None, e)"
  shows "cleared e UNIV" and "\<forall>(tn, st) \<in> set (tableStates e). queue st = []"
proof -
  from assms obtain e1 where "finalize sd e1 = (None, e)"
    by (auto simp: executeBody_def split: prod.splits option.splits)
  then obtain e3 where fd: "finalDrain sd e1 = (None, e3)" and cs: "checkStuck e3 = (None, e)"
    by (auto simp: finalize_def split: prod.splits option.splits)
  from checkStuck_None[OF cs] finalDrain_clears[OF fd]
  show "cleared e UNIV" and "\<forall>(tn, st) \<in> set (tableStates e). queue st = []"
    by simp_all
qed
text \<open>
  The scenario of the specification: two books and a review whose \<^verbatim>\<open>bookId\<close> refers to
  the \<^verbatim>\<open>id\<close> of book 0, with \<^verbatim>\<open>books.id\<close> declared referenceable and the Postgres
  ceiling. The values of the two ids and the transform function are parameters.
\<close>

definition ex_seeder :: seeder where
  "ex_seeder = \<lparr>refsConfig = [(''books'', [''id''])], schema = [''books'', ''reviews''],
                maxParameters = PG_MAX_PARAMETERS, dbInsert = (\<lambda>history t rows. True)\<rparr>"

definition ex_bookRef :: "(jsvalue \<Rightarrow> jsvalue) \<Rightarrow> columnValueReference" where
  "ex_bookRef f = \<lparr>refColumnName = ''id'', refTableName = ''books'', refRowIndex = 0,
                   transformFn = f\<rparr>"

definition ex_stream :: "jsvalue \<Rightarrow> jsvalue \<Rightarrow> (jsvalue \<Rightarrow> jsvalue) \<Rightarrow> (string \<times> chunk) list" where
  "ex_stream v0 v1 f =
     [(''books'', [(''id'', Value v0)]),
      (''books'', [(''id'', Value v1)]),
      (''reviews'', [(''bookId'', Reference (ex_bookRef f))])]"

definition ex_calls :: "insertCall list" where
  "ex_calls =
     [\<lparr>ic_table = ''books'', ic_rows = [[(''id'', JNum 10)], [(''id'', JNum 11)]],
       ic_rowIndices = [0, 1],
       ic_chunks = [[(''id'', Value (JNum 10))], [(''id'', Value (JNum 11))]]\<rparr>,
      \<lparr>ic_table = ''reviews'', ic_rows = [[(''bookId'', JNum 10)]],
       ic_rowIndices = [0],
       ic_chunks = [[(''bookId'', Reference (ex_bookRef id))]]\<rparr>]"

lemmas run_defs =
  execute_def executeBody_def initialEngine_def hasRefs_def processChunk_def acceptChunk_def
  initTable_def newTableState_def getBatchSizeForTable_def PG_MAX_PARAMETERS_def
  SQLITE_MAX_PARAMETERS_def pushBatch_def pushQueue_def flushIfFull_def createRefDatabase_def
  refExists_def finalize_def finalDrain_def flush_def recordRefColumns_def chunkGet_def
  finalDrainLoop.simps drainAllQueues_def drainLoop.simps resolveRef_def checkStuck_def
  flushAllQueuesAfterDrain_def Let_def

lemma ex_run: "execute ex_seeder (ex_stream (JNum 10) (JNum 11) id) = (None, ex_calls)"
  by (simp add: run_defs ex_seeder_def ex_stream_def ex_bookRef_def ex_calls_def)

lemma success_accounting:
  assumes run: "executeBody sd generator = (None, e)"
  shows "(\<forall>tn. loggedRows (inserted e) tn = mset (map int [0..<length (chunksOf generator tn)])) \<and>
         (\<forall>call \<in> set (inserted e). callOK generator call) \<and>
         (\<forall>(tn, st) \<in> set (tableStates e). batch st = [] \<and> queue st = [])"
proof -
  from executeBody_engineInv[OF run] have inv: "engineInv sd generator e" by simp
  note empty = executeBody_success[OF run]
  have be: "batch st = [] \<and> queue st = [] \<and> rowIndices st = []"
    if "(tn, st) \<in> set (tableStates e)" for tn st
  proof -
    from that engineInvD(1)[OF inv] have st: "map_of (tableStates e) tn = Some st" by simp
    with empty(1) have "batch st = []" by (simp add: cleared_def)
    moreover from engineInvD(6)[OF inv st] have "length (batch st) = length (rowIndices st)"
      by (simp add: tableOK_def)
    ultimately show ?thesis using empty(2) that by auto
  qed
  have "heldRows (tableStates e) tn = {#}" for tn
  proof (cases "map_of (tableStates e) tn")
    case None
    then show ?thesis by (simp add: heldRows_def)
  next
    case (Some st)
    then have "(tn, st) \<in> set (tableStates e)" by (rule map_of_SomeD)
    from be[OF this] Some show ?thesis by (simp add: heldRows_def)
  qed
  with engineInvD(5)[OF inv]
  have "\<forall>tn. loggedRows (inserted e) tn = mset (map int [0..<length (chunksOf generator tn)])"
    by simp
  moreover from engineInvD(7)[OF inv] have "\<forall>call \<in> set (inserted e). callOK generator call"
    by (simp add: logOK_def)
  ultimately show ?thesis using be by blast
qed

text \<open>
  C1. When \<open>execute\<close> finishes without an error, then for every table the row numbers
  passed to the external bulk insert are exactly the numbers of the table's chunks in
  the stream, each once; every call passed rows of the stream under their own numbers;
  and no table has a chunk left in its batch or in its queue.
\<close>

theorem execute_inserts_each_row_once:
  assumes run: "execute sd generator = (None, calls)"
  shows "(\<forall>tn. loggedRows calls tn = mset (map int [0..<length (chunksOf generator tn)])) \<and>
         (\<forall>call \<in> set calls. callOK generator call) \<and>
         (\<exists>e. executeBody sd generator = (None, e) \<and> inserted e = calls \<and>
              (\<forall>(tn, st) \<in> set (tableStates e). batch st = [] \<and> queue st = []))"
proof -
  from run obtain e where body: "executeBody sd generator = (None, e)" and e: "inserted e = calls"
    by (auto simp: execute_def split: prod.splits)
  from success_accounting[OF body] body e show ?thesis by blast
qed

theorem execute_inserts_each_row_once_witness:
  "loggedRows ex_calls ''books'' = {#0, 1#} \<and> loggedRows ex_calls ''reviews'' = {#0#}"
proof -
  have len: "length (chunksOf (ex_stream (JNum 10) (JNum 11) id) ''books'') = Suc (Suc 0)"
    "length (chunksOf (ex_stream (JNum 10) (JNum 11) id) ''reviews'') = Suc 0"
    by (simp_all add: chunksOf_def ex_stream_def)
  from execute_inserts_each_row_once[OF ex_run]
  have "loggedRows ex_calls tn
      = mset (map int [0..<length (chunksOf (ex_stream (JNum 10) (JNum 11) id) tn)])" for tn
    by blast
  from this[of "''books''"] this[of "''reviews''"] len
  show ?thesis by (simp del: upt_Suc add: upt_rec)
qed

text \<open>
  C2. Let row \<open>i2\<close> of table \<open>t2\<close> in the stream be the chunk \<open>c2\<close>, and let \<open>c2\<close> hold a
  reference. If call number \<open>k2\<close> of the external insert carries that row, then a call
  with a strictly smaller number carried the row the reference targets. This holds for
  every run, failed or not, and needs no assumption on the order of the two rows in the
  stream.
\<close>

theorem dependency_persisted_first:
  assumes run: "execute sd generator = (r, calls)"
    and row: "isRow generator t2 i2 c2"
    and ref: "ref \<in> set (extractRefs c2)"
    and call: "k2 < length calls" "ic_table (calls ! k2) = t2" "i2 \<in> set (ic_rowIndices (calls ! k2))"
  shows "\<exists>k1 < k2. ic_table (calls ! k1) = refTableName ref \<and>
           refRowIndex ref \<in> set (ic_rowIndices (calls ! k1))"
proof -
  obtain e where body: "executeBody sd generator = (r, e)" and calls: "calls = inserted e"
    using run by (auto simp: execute_def split: prod.splits)
  from executeBody_engineInv[OF body] calls have ok: "logOK generator calls" by simp
  from call(1) have "calls ! k2 \<in> set calls" by simp
  with ok have cok: "callOK generator (calls ! k2)" by (simp add: logOK_def)
  then have "length (ic_chunks (calls ! k2)) = length (ic_rowIndices (calls ! k2))"
    by (simp add: callOK_def)
  with call(3) obtain c where z: "(i2, c) \<in> set (zip (ic_rowIndices (calls ! k2)) (ic_chunks (calls ! k2)))"
    by (metis in_set_impl_in_set_zip1)
  with cok call(2) have "isRow generator t2 i2 c" by (auto simp: callOK_def)
  with row have "c = c2" by (rule isRow_unique[rotated])
  with z have "c2 \<in> set (ic_chunks (calls ! k2))" by (auto dest: set_zip_rightD)
  with ok call(1) ref have "persisted (take k2 calls) (refTableName ref) (refRowIndex ref)"
    by (simp add: logOK_def dependencyOrdered_def)
  then obtain x where x: "x \<in> set (take k2 calls)" "ic_table x = refTableName ref"
    "refRowIndex ref \<in> set (ic_rowIndices x)"
    by (auto simp: persisted_def)
  from x(1) obtain k1 where "k1 < length (take k2 calls)" "take k2 calls ! k1 = x"
    by (auto simp: in_set_conv_nth)
  with x(2,3) call(1) show ?thesis by (intro exI[of _ k1]) auto
qed

theorem dependency_persisted_first_witness:
  "\<exists>k1 < 1. ic_table (ex_calls ! k1) = ''books'' \<and> 0 \<in> set (ic_rowIndices (ex_calls ! k1))"
proof -
  have row: "isRow (ex_stream (JNum 10) (JNum 11) id) ''reviews'' 0
      [(''bookId'', Reference (ex_bookRef id))]"
    by (simp add: isRow_def chunksOf_def ex_stream_def)
  have ref: "ex_bookRef id \<in> set (extractRefs [(''bookId'', Reference (ex_bookRef id))])"
    by simp
  have call: "1 < length ex_calls" "ic_table (ex_calls ! 1) = ''reviews''"
    "0 \<in> set (ic_rowIndices (ex_calls ! 1))"
    by (simp_all add: ex_calls_def)
  from dependency_persisted_first[OF ex_run row ref call]
  show ?thesis by (simp add: ex_bookRef_def)
qed

section \<open>The report of the finalizer\<close>

lemma joinLines_sublist: "l \<in> set ls \<Longrightarrow> sublist l (joinLines ls)"
proof (induction ls rule: joinLines.induct)
  case 1
  then show ?case by simp
next
  case (2 x)
  then show ?case by simp
next
  case (3 x y ls)
  show ?case
  proof (cases "l = x")
    case True
    then show ?thesis by simp
  next
    case False
    with 3 have "sublist l (joinLines (y # ls))" by simp
    then obtain ps ss where "joinLines (y # ls) = ps @ l @ ss"
      by (auto simp: sublist_def)
    then have "joinLines (x # y # ls) = (x @ [CHR 0x0A] @ ps) @ l @ ss" by simp
    then show ?thesis unfolding sublist_def by blast
  qed
qed

lemma unresolvedLine_listed:
  assumes "(tn, st) \<in> set ts" and "q \<in> set (queue st)" and "ref \<in> set (pendingRefs q)"
  shows "unresolvedLine tn q ref \<in> set (unresolvedLines ts)"
  using assms unfolding unresolvedLines_def by force

lemma unresolvedLine_in_message:
  assumes "(tn, st) \<in> set ts" and "q \<in> set (queue st)" and "ref \<in> set (pendingRefs q)"
  shows "sublist (unresolvedLine tn q ref) (getUnresolvedRefsError ts)"
proof -
  from joinLines_sublist[OF unresolvedLine_listed[OF assms]]
  obtain ps ss where "joinLines (unresolvedLines ts) = ps @ unresolvedLine tn q ref @ ss"
    by (auto simp: sublist_def)
  then have "getUnresolvedRefsError ts =
      (''Failed to resolve refs (possible circular dependency):'' @ [CHR 0x0A] @ ps) @
      unresolvedLine tn q ref @ ss"
    by (simp add: getUnresolvedRefsError_def)
  then show ?thesis unfolding sublist_def by blast
qed

lemma processStream_engineInv:
  assumes "processStream sd generator (initialEngine sd) = (None, e1)"
  shows "engineInv sd generator e1"
  using maintains_processStream[where P = "engineInv sd" and Q = "\<lambda>cs e. logOK cs (inserted e)"
        and cs = "[]",
        OF engineInv_maintained acceptChunk_engineInv logOK_append engineInv_initial assms]
  by simp

lemma finalDrain_engineInv:
  assumes "engineInv sd cs e1" and "finalDrain sd e1 = (None, e)"
  shows "engineInv sd cs e"
  using maintains_finalDrain[OF engineInv_maintained assms] by simp

text \<open>The second scenario of the specification: a note that refers to row 5 of the
  books, and no book in the stream.\<close>

definition ex_notes_seeder :: seeder where
  "ex_notes_seeder = \<lparr>refsConfig = [(''books'', [''id''])], schema = [''books'', ''notes''],
                      maxParameters = PG_MAX_PARAMETERS, dbInsert = (\<lambda>history t rows. True)\<rparr>"

definition ex_noteRef :: columnValueReference where
  "ex_noteRef = \<lparr>refColumnName = ''id'', refTableName = ''books'', refRowIndex = 5,
                 transformFn = id\<rparr>"

definition ex_notes_stream :: "(string \<times> chunk) list" where
  "ex_notes_stream = [(''notes'', [(''bookId'', Reference ex_noteRef)])]"

definition ex_note_queued :: queuedChunk where
  "ex_note_queued = \<lparr>chunk = [(''bookId'', Reference ex_noteRef)], rowIndex = 0,
                     pendingRefs = [ex_noteRef]\<rparr>"

lemma ex_notes_run:
  "fst (processStream ex_notes_seeder ex_notes_stream (initialEngine ex_notes_seeder)) = None"
  "fst (finalDrain ex_notes_seeder
         (snd (processStream ex_notes_seeder ex_notes_stream (initialEngine ex_notes_seeder)))) = None"
  "tableStates (snd (finalDrain ex_notes_seeder
         (snd (processStream ex_notes_seeder ex_notes_stream (initialEngine ex_notes_seeder))))) =
     [(''notes'', \<lparr>batch = [], queue = [ex_note_queued], seededCount = 0, rowIndices = [],
                  batchSize = enat 65535, columnCount = 1\<rparr>)]"
  by (simp_all add: run_defs ex_notes_seeder_def ex_notes_stream_def ex_noteRef_def
      ex_note_queued_def)

text \<open>
  C5. When the stream was consumed and the final drain loop ended without an error,
  and a chunk is left in the queue of some table, then \<open>execute\<close> fails with the one error
  of \<open>getUnresolvedRefsError\<close>. The chunk is a row of the stream, its pending references
  are all the references it holds, there is at least one, and for each of them the
  message contains the line naming the table, the row number and the target table, row
  and column.
\<close>

theorem stuck_chunks_all_reported:
  assumes stream: "processStream sd generator (initialEngine sd) = (None, e1)"
    and drained: "finalDrain sd e1 = (None, e)"
    and stuck: "(tn, st) \<in> set (tableStates e)" "q \<in> set (queue st)"
  shows "executeBody sd generator =
           (Some (UnresolvedRefs (getUnresolvedRefsError (tableStates e))), e) \<and>
         isRow generator tn (rowIndex q) (chunk q) \<and>
         pendingRefs q = extractRefs (chunk q) \<and> pendingRefs q \<noteq> [] \<and>
         (\<forall>ref \<in> set (pendingRefs q).
            sublist (unresolvedLine tn q ref) (getUnresolvedRefsError (tableStates e)))"
proof -
  from stuck have "list_ex (\<lambda>(tableName, st). queue st \<noteq> []) (tableStates e)"
    unfolding list_ex_iff by (intro bexI[of _ "(tn, st)"]) auto
  with stream drained have run: "executeBody sd generator =
      (Some (UnresolvedRefs (getUnresolvedRefsError (tableStates e))), e)"
    by (simp add: executeBody_def finalize_def checkStuck_def)
  from finalDrain_engineInv[OF processStream_engineInv[OF stream] drained]
  have inv: "engineInv sd generator e" .
  from stuck(1) engineInvD(1)[OF inv] have "map_of (tableStates e) tn = Some st" by simp
  from engineInvD(6)[OF inv this] stuck(2) have "queuedOK generator tn q"
    by (simp add: tableOK_def)
  then have "isRow generator tn (rowIndex q) (chunk q)"
    "pendingRefs q = extractRefs (chunk q)" "pendingRefs q \<noteq> []"
    unfolding queuedOK_def by blast+
  with run unresolvedLine_in_message[OF stuck] show ?thesis
    by blast
qed

theorem stuck_chunks_all_reported_witness:
  "fst (executeBody ex_notes_seeder ex_notes_stream) =
     Some (UnresolvedRefs (''Failed to resolve refs (possible circular dependency):'' @ [CHR 0x0A] @
       ''notes[0] '' @ arrow @ '' books[5].id'')) \<and>
   sublist (''notes[0] '' @ arrow @ '' books[5].id'')
     (''Failed to resolve refs (possible circular dependency):'' @ [CHR 0x0A] @
       ''notes[0] '' @ arrow @ '' books[5].id'')"
proof -
  let ?e1 = "snd (processStream ex_notes_seeder ex_notes_stream (initialEngine ex_notes_seeder))"
  let ?e = "snd (finalDrain ex_notes_seeder ?e1)"
  have s: "processStream ex_notes_seeder ex_notes_stream (initialEngine ex_notes_seeder) = (None, ?e1)"
    using ex_notes_run(1) by (simp add: prod_eq_iff)
  have d: "finalDrain ex_notes_seeder ?e1 = (None, ?e)"
    using ex_notes_run(2) by (simp add: prod_eq_iff)
  have t: "(''notes'', \<lparr>batch = [], queue = [ex_note_queued], seededCount = 0, rowIndices = [],
                  batchSize = enat 65535, columnCount = 1\<rparr>) \<in> set (tableStates ?e)"
    by (simp add: ex_notes_run(3))
  have q: "ex_note_queued \<in> set (queue \<lparr>batch = [], queue = [ex_note_queued], seededCount = 0,
      rowIndices = [], batchSize = enat 65535, columnCount = 1\<rparr>)"
    by simp
  have msg: "getUnresolvedRefsError (tableStates ?e) =
      ''Failed to resolve refs (possible circular dependency):'' @ [CHR 0x0A] @
       ''notes[0] '' @ arrow @ '' books[5].id''"
    by (simp add: ex_notes_run(3) getUnresolvedRefsError_def unresolvedLines_def
        unresolvedLine_def ex_note_queued_def ex_noteRef_def showInt_def showNat.simps)
  have line: "unresolvedLine ''notes'' ex_note_queued ex_noteRef = ''notes[0] '' @ arrow @ '' books[5].id''"
    by (simp add: unresolvedLine_def ex_note_queued_def ex_noteRef_def showInt_def showNat.simps)
  from stuck_chunks_all_reported[OF s d t q] msg line show ?thesis
    by (simp add: ex_note_queued_def)
qed

section \<open>Termination of the finalizer\<close>

text \<open>Two rows that refer to each other, and an engine for the tables of the example
  drain.\<close>

definition ex_cycle_seeder :: seeder where
  "ex_cycle_seeder = \<lparr>refsConfig = [(''a'', [''x'']), (''b'', [''id''])], schema = [''a'', ''b''],
                      maxParameters = SQLITE_MAX_PARAMETERS, dbInsert = (\<lambda>history t rows. True)\<rparr>"

definition ex_cycle_stream :: "(string \<times> chunk) list" where
  "ex_cycle_stream =
     [(''a'', [(''x'', Reference \<lparr>refColumnName = ''id'', refTableName = ''b'', refRowIndex = 0,
                                 transformFn = id\<rparr>)]),
      (''b'', [(''id'', Reference \<lparr>refColumnName = ''x'', refTableName = ''a'', refRowIndex = 0,
                                  transformFn = id\<rparr>)])]"

definition ex_drain_seeder :: seeder where
  "ex_drain_seeder = \<lparr>refsConfig = [(''b'', [''id''])], schema = [''a'', ''b''],
                      maxParameters = SQLITE_MAX_PARAMETERS, dbInsert = (\<lambda>history t rows. True)\<rparr>"

definition ex_engine :: engine where
  "ex_engine = \<lparr>tableStates = ex_tables_before, rowIndexByTable = [''a'' \<mapsto> 2],
                sqliteDb = Some ex_store, inserted = []\<rparr>"

text \<open>
  C7. \<open>drainLoop\<close> and \<open>finalDrainLoop\<close> are total functions: their recursion was shown
  to terminate on the number of queued chunks, and \<open>processStream\<close> recurses on the
  finite stream. The measure decreases as the claim says: a pass of the drain that
  reports progress leaves fewer queued chunks, and so does an iteration of the final
  loop that continues (a drain that reports progress followed by flushes that do not
  fail). On the two rows that refer to each other, \<open>execute\<close> returns the
  circular-reference error, whose message names both rows, and nothing was inserted.
\<close>

theorem final_loop_decreases_queued:
  "(drainPass d ts False = Inr (ts1, True) \<longrightarrow> totalQueued ts1 < totalQueued ts) \<and>
   (sqliteDb e = Some d \<and> drainAllQueues (tableStates e) d = Inr (ts', True) \<and>
    flushAll sd (map fst ts') (e\<lparr>tableStates := ts'\<rparr>) = (None, e') \<longrightarrow>
      totalQueued (tableStates e') < totalQueued (tableStates e)) \<and>
   execute ex_cycle_seeder ex_cycle_stream =
     (Some (UnresolvedRefs
        (''Failed to resolve refs (possible circular dependency):'' @ [CHR 0x0A] @
         ''a[0] '' @ arrow @ '' b[0].id'' @ [CHR 0x0A] @
         ''b[0] '' @ arrow @ '' a[0].x'')), [])"
proof (intro conjI impI)
  assume "drainPass d ts False = Inr (ts1, True)"
  then show "totalQueued ts1 < totalQueued ts" by (rule drainPass_progress_less)
next
  assume a: "sqliteDb e = Some d \<and> drainAllQueues (tableStates e) d = Inr (ts', True) \<and>
    flushAll sd (map fst ts') (e\<lparr>tableStates := ts'\<rparr>) = (None, e')"
  then have "totalQueued ts' < totalQueued (tableStates e)"
    by (auto dest: drainAllQueues_progress_less)
  moreover from a have "totalQueued (tableStates e') = totalQueued ts'"
    using flushAll_totalQueued[of sd "map fst ts'" "e\<lparr>tableStates := ts'\<rparr>" None e'] by simp
  ultimately show "totalQueued (tableStates e') < totalQueued (tableStates e)" by simp
next
  show "execute ex_cycle_seeder ex_cycle_stream =
     (Some (UnresolvedRefs
        (''Failed to resolve refs (possible circular dependency):'' @ [CHR 0x0A] @
         ''a[0] '' @ arrow @ '' b[0].id'' @ [CHR 0x0A] @
         ''b[0] '' @ arrow @ '' a[0].x'')), [])"
    by (simp add: run_defs ex_cycle_seeder_def ex_cycle_stream_def getUnresolvedRefsError_def
        unresolvedLines_def unresolvedLine_def showInt_def showNat.simps)
qed

theorem final_loop_decreases_queued_witness:
  "totalQueued ex_tables_after < totalQueued ex_tables_before \<and>
   totalQueued (tableStates (snd (flushAll ex_drain_seeder (map fst ex_tables_after)
       (ex_engine\<lparr>tableStates := ex_tables_after\<rparr>)))) < totalQueued (tableStates ex_engine)"
proof -
  have pass: "drainPass ex_store ex_tables_before False = Inr (ex_tables_after, True)"
    by (simp add: ex_tables_before_def ex_tables_after_def ex_store_def ex_queued_def ex_ref_def
        refExists_def)
  have db: "sqliteDb ex_engine = Some ex_store" and ts: "tableStates ex_engine = ex_tables_before"
    by (simp_all add: ex_engine_def)
  have drain: "drainAllQueues (tableStates ex_engine) ex_store = Inr (ex_tables_after, True)"
    by (simp add: ts drainAllQueues_def drainLoop.simps ex_tables_before_def ex_tables_after_def
        ex_store_def ex_queued_def ex_ref_def refExists_def)
  have "fst (flushAll ex_drain_seeder (map fst ex_tables_after)
       (ex_engine\<lparr>tableStates := ex_tables_after\<rparr>)) = None"
    by (simp add: ex_tables_after_def ex_engine_def ex_drain_seeder_def flush_def resolveRef_def
        ex_store_def ex_ref_def recordRefColumns_def Let_def)
  then have fa: "flushAll ex_drain_seeder (map fst ex_tables_after)
       (ex_engine\<lparr>tableStates := ex_tables_after\<rparr>) =
         (None, snd (flushAll ex_drain_seeder (map fst ex_tables_after)
       (ex_engine\<lparr>tableStates := ex_tables_after\<rparr>)))"
    by (simp add: prod_eq_iff)
  from final_loop_decreases_queued[of ex_store ex_tables_before ex_tables_after ex_engine
      ex_tables_after ex_drain_seeder] pass db drain fa
  show ?thesis by blast
qed

section \<open>Chunks that are not deferred\<close>

lemma flush_nonempty:
  assumes "map_of (tableStates e) tn = Some st" and "batch st \<noteq> []"
    and "flush sd tn e = (None, e')"
  shows "\<exists>rows. resolveBatch (batch st) (sqliteDb e) = Inr rows \<and>
           inserted e' = inserted e @
             [\<lparr>ic_table = tn, ic_rows = rows, ic_rowIndices = rowIndices st, ic_chunks = batch st\<rparr>]"
  using assms
  by (auto simp: flush_def Let_def split: if_splits sum.splits prod.splits option.splits)

lemma acceptChunk_batched:
  assumes "\<not> hasRefs sd \<or> extractRefs c = []"
  shows "acceptChunk sd (tn, c) e =
           (None, pushBatch tn c (the (rowIndexByTable (initTable sd tn c e) tn))
              ((initTable sd tn c e)\<lparr>rowIndexByTable :=
                 (rowIndexByTable (initTable sd tn c e))
                   (tn \<mapsto> the (rowIndexByTable (initTable sd tn c e) tn) + 1)\<rparr>))"
  using assms by (auto simp: acceptChunk_def Let_def)

lemma pushBatch_tables:
  "map_of (tableStates (pushBatch tn c i ((initTable sd tn c e)\<lparr>rowIndexByTable := m\<rparr>))) =
     (map_of (tableStates e))(tn \<mapsto> (tableStateAt sd tn c e)
        \<lparr>batch := batch (tableStateAt sd tn c e) @ [c],
         rowIndices := rowIndices (tableStateAt sd tn c e) @ [i]\<rparr>)"
  by (simp add: pushBatch_def Let_def initTable_lookup initTable_update AList.update_conv')

lemma pushBatch_other:
  "sqliteDb (pushBatch tn c i ((initTable sd tn c e)\<lparr>rowIndexByTable := m\<rparr>)) = sqliteDb e"
  "inserted (pushBatch tn c i ((initTable sd tn c e)\<lparr>rowIndexByTable := m\<rparr>)) = inserted e"
  by (simp_all add: pushBatch_def Let_def initTable_other)

text \<open>
  C8. A chunk without a reference is accepted without an error; it is appended to the
  batch of its table, and the queue of that table and the states of all other tables
  stay as they were. When the next flush of the table succeeds, it passes the whole
  batch, this chunk included, to the external insert in one call.
\<close>

theorem chunk_without_refs_is_batched:
  assumes "extractRefs c = []"
  shows "\<exists>e' st'. acceptChunk sd (tn, c) e = (None, e') \<and>
           map_of (tableStates e') tn = Some st' \<and>
           batch st' = batch (tableStateAt sd tn c e) @ [c] \<and>
           queue st' = queue (tableStateAt sd tn c e) \<and>
           (\<forall>t. t \<noteq> tn \<longrightarrow> map_of (tableStates e') t = map_of (tableStates e) t) \<and>
           (\<forall>e''. flush sd tn e' = (None, e'') \<longrightarrow>
              (\<exists>rows. resolveBatch (batch st') (sqliteDb e') = Inr rows \<and>
                 inserted e'' = inserted e' @
                   [\<lparr>ic_table = tn, ic_rows = rows, ic_rowIndices = rowIndices st',
                     ic_chunks = batch st'\<rparr>]))"
proof -
  let ?i = "the (rowIndexByTable (initTable sd tn c e) tn)"
  let ?e' = "pushBatch tn c ?i ((initTable sd tn c e)\<lparr>rowIndexByTable :=
                 (rowIndexByTable (initTable sd tn c e))(tn \<mapsto> ?i + 1)\<rparr>)"
  let ?st0 = "tableStateAt sd tn c e"
  let ?st' = "?st0\<lparr>batch := batch ?st0 @ [c], rowIndices := rowIndices ?st0 @ [?i]\<rparr>"
  from assms have acc: "acceptChunk sd (tn, c) e = (None, ?e')"
    by (simp add: acceptChunk_batched)
  have st': "map_of (tableStates ?e') tn = Some ?st'"
    by (simp add: pushBatch_tables)
  have other: "\<forall>t. t \<noteq> tn \<longrightarrow> map_of (tableStates ?e') t = map_of (tableStates e) t"
    by (simp add: pushBatch_tables)
  have fl: "\<exists>rows. resolveBatch (batch ?st') (sqliteDb ?e') = Inr rows \<and>
        inserted e'' = inserted ?e' @
          [\<lparr>ic_table = tn, ic_rows = rows, ic_rowIndices = rowIndices ?st', ic_chunks = batch ?st'\<rparr>]"
    if "flush sd tn ?e' = (None, e'')" for e''
    using flush_nonempty[OF st' _ that] by simp
  from acc st' other fl show ?thesis
    by (intro exI[of _ ?e'] exI[of _ ?st']) simp
qed

theorem chunk_without_refs_is_batched_witness:
  "\<exists>e' st'. acceptChunk ex_seeder (''books'', [(''id'', Value (JNum 10))]) (initialEngine ex_seeder)
       = (None, e') \<and>
     map_of (tableStates e') ''books'' = Some st' \<and>
     batch st' = [[(''id'', Value (JNum 10))]] \<and> queue st' = []"
proof -
  have r: "extractRefs [(''id'', Value (JNum 10))] = []" by simp
  have st0: "tableStateAt ex_seeder ''books'' [(''id'', Value (JNum 10))] (initialEngine ex_seeder)
      = newTableState ex_seeder [(''id'', Value (JNum 10))]"
    by (simp add: tableStateAt_def initialEngine_def)
  from chunk_without_refs_is_batched[OF r, of ex_seeder "''books''" "initialEngine ex_seeder"]
  show ?thesis unfolding st0 by (auto simp: newTableState_def)
qed

lemma resolveChunk_None_fails:
  "extractRefs c \<noteq> [] \<Longrightarrow>
   \<exists>r \<in> set (extractRefs c). resolveChunk c None =
      Inl (CannotResolveRefWithoutDatabase (refTableName r) (refRowIndex r) (refColumnName r))"
proof (induction c)
  case Nil
  then show ?case by simp
next
  case (Cons x c)
  obtain k v where x: "x = (k, v)" by (cases x)
  show ?case
  proof (cases v)
    case (Reference r)
    with x show ?thesis by simp
  next
    case (Value w)
    with x Cons.prems have "extractRefs c \<noteq> []" by simp
    from Cons.IH[OF this] x Value show ?thesis by auto
  qed
qed

lemma resolveChunk_None_Inl: "resolveChunk c None = Inl err \<Longrightarrow> extractRefs c \<noteq> []"
proof (induction c)
  case Nil
  then show ?case by simp
next
  case (Cons x c)
  obtain k v where "x = (k, v)" by (cases x)
  with Cons show ?case by (cases v) (auto split: sum.splits if_splits)
qed

lemma resolveBatch_None_fails:
  "\<exists>c \<in> set cs. extractRefs c \<noteq> [] \<Longrightarrow>
   \<exists>c \<in> set cs. \<exists>r \<in> set (extractRefs c). resolveBatch cs None =
      Inl (CannotResolveRefWithoutDatabase (refTableName r) (refRowIndex r) (refColumnName r))"
proof (induction cs)
  case Nil
  then show ?case by simp
next
  case (Cons c cs)
  show ?case
  proof (cases "extractRefs c = []")
    case False
    from resolveChunk_None_fails[OF this] show ?thesis by auto
  next
    case True
    with Cons.prems have "\<exists>c \<in> set cs. extractRefs c \<noteq> []" by auto
    from Cons.IH[OF this] obtain c' r where c': "c' \<in> set cs" "r \<in> set (extractRefs c')"
      "resolveBatch cs None =
        Inl (CannotResolveRefWithoutDatabase (refTableName r) (refRowIndex r) (refColumnName r))"
      by blast
    from True obtain row where "resolveChunk c None = Inr row"
      by (cases "resolveChunk c None") (auto dest: resolveChunk_None_Inl)
    with c' show ?thesis by auto
  qed
qed

lemma logged_row_call:
  assumes "i \<in># loggedRows calls tn"
  shows "\<exists>call \<in> set calls. ic_table call = tn \<and> i \<in> set (ic_rowIndices call)"
  using assms by (auto simp: loggedRows_def)

lemma stream_chunk_isRow:
  assumes "(tn, c) \<in> set cs"
  shows "\<exists>i. isRow cs tn i c \<and> i \<in> set (map int [0..<length (chunksOf cs tn)])"
proof -
  from assms have "c \<in> set (chunksOf cs tn)" by (force simp: chunksOf_def)
  then obtain n where "n < length (chunksOf cs tn)" "chunksOf cs tn ! n = c"
    by (auto simp: in_set_conv_nth)
  then show ?thesis
    by (intro exI[of _ "int n"]) (auto simp: isRow_def)
qed

lemma no_refs_config_never_succeeds:
  assumes cfg: "refsConfig sd = []" and ref: "extractRefs c \<noteq> []" and c: "(tn, c) \<in> set generator"
  shows "fst (execute sd generator) \<noteq> None"
proof
  assume "fst (execute sd generator) = None"
  then obtain e where run: "executeBody sd generator = (None, e)"
    by (auto simp: execute_def split: prod.splits)
  from executeBody_engineInv[OF run] have inv: "engineInv sd generator e" by simp
  from stream_chunk_isRow[OF c] obtain i where i: "isRow generator tn i c"
    "i \<in> set (map int [0..<length (chunksOf generator tn)])" by blast
  from success_accounting[OF run] i(2) have "i \<in># loggedRows (inserted e) tn"
    by (metis set_mset_mset)
  from logged_row_call[OF this] obtain call where call: "call \<in> set (inserted e)"
    "ic_table call = tn" "i \<in> set (ic_rowIndices call)" by blast
  from success_accounting[OF run] call(1) have cok: "callOK generator call" by blast
  then have "length (ic_chunks call) = length (ic_rowIndices call)" by (simp add: callOK_def)
  with call(3) obtain c' where z: "(i, c') \<in> set (zip (ic_rowIndices call) (ic_chunks call))"
    by (metis in_set_impl_in_set_zip1)
  with cok call(2) have "isRow generator tn i c'" by (auto simp: callOK_def)
  with i(1) have "c' = c" by (rule isRow_unique[rotated])
  with z have "c \<in> set (ic_chunks call)" by (auto dest: set_zip_rightD)
  with engineInvD(9)[OF inv _ call(1)] cfg have "extractRefs c = []"
    by (simp add: hasRefs_def)
  with ref show False by simp
qed

text \<open>
  C10. With an empty refs configuration, so that there is no store, a chunk that holds a
  reference is accepted without an error and appended to the batch of its table, not to
  the queue. The flush of that batch, for a table of the schema, throws the error
  \<^verbatim>\<open>Cannot resolve ref without SQLite database\<close> for a reference of the batch; nothing
  is inserted and the batch stays. A run over a stream with such a chunk never succeeds.
\<close>

theorem reference_without_refs_config:
  assumes cfg: "refsConfig sd = []" and ref: "extractRefs c \<noteq> []"
  shows "(sqliteDb e = None \<and> tn \<in> set (schema sd) \<longrightarrow>
           (\<exists>e' st'. acceptChunk sd (tn, c) e = (None, e') \<and>
              map_of (tableStates e') tn = Some st' \<and>
              batch st' = batch (tableStateAt sd tn c e) @ [c] \<and>
              queue st' = queue (tableStateAt sd tn c e) \<and>
              (\<exists>c' \<in> set (batch st'). \<exists>r \<in> set (extractRefs c').
                 flush sd tn e' =
                   (Some (CannotResolveRefWithoutDatabase
                            (refTableName r) (refRowIndex r) (refColumnName r)), e')))) \<and>
         ((tn, c) \<in> set generator \<longrightarrow> fst (execute sd generator) \<noteq> None)"
proof (intro conjI impI)
  assume "(tn, c) \<in> set generator"
  with cfg ref show "fst (execute sd generator) \<noteq> None"
    by (rule no_refs_config_never_succeeds)
next
  assume a: "sqliteDb e = None \<and> tn \<in> set (schema sd)"
  let ?i = "the (rowIndexByTable (initTable sd tn c e) tn)"
  let ?e' = "pushBatch tn c ?i ((initTable sd tn c e)\<lparr>rowIndexByTable :=
                 (rowIndexByTable (initTable sd tn c e))(tn \<mapsto> ?i + 1)\<rparr>)"
  let ?st0 = "tableStateAt sd tn c e"
  let ?st' = "?st0\<lparr>batch := batch ?st0 @ [c], rowIndices := rowIndices ?st0 @ [?i]\<rparr>"
  from cfg have acc: "acceptChunk sd (tn, c) e = (None, ?e')"
    by (simp add: acceptChunk_batched hasRefs_def)
  have st': "map_of (tableStates ?e') tn = Some ?st'"
    by (simp add: pushBatch_tables)
  from ref have "\<exists>c' \<in> set (batch ?st'). extractRefs c' \<noteq> []" by simp
  from resolveBatch_None_fails[OF this] obtain c' r where cr: "c' \<in> set (batch ?st')"
    "r \<in> set (extractRefs c')"
    "resolveBatch (batch ?st') None =
       Inl (CannotResolveRefWithoutDatabase (refTableName r) (refRowIndex r) (refColumnName r))"
    by blast
  from a st' cr(3) have "flush sd tn ?e' =
      (Some (CannotResolveRefWithoutDatabase (refTableName r) (refRowIndex r) (refColumnName r)), ?e')"
    by (simp add: flush_def pushBatch_other)
  with cr(1,2) have "\<exists>c' \<in> set (batch ?st'). \<exists>r \<in> set (extractRefs c').
      flush sd tn ?e' =
        (Some (CannotResolveRefWithoutDatabase (refTableName r) (refRowIndex r) (refColumnName r)), ?e')"
    by blast
  with acc st' show "\<exists>e' st'. acceptChunk sd (tn, c) e = (None, e') \<and>
              map_of (tableStates e') tn = Some st' \<and>
              batch st' = batch (tableStateAt sd tn c e) @ [c] \<and>
              queue st' = queue (tableStateAt sd tn c e) \<and>
              (\<exists>c' \<in> set (batch st'). \<exists>r \<in> set (extractRefs c').
                 flush sd tn e' =
                   (Some (CannotResolveRefWithoutDatabase
                            (refTableName r) (refRowIndex r) (refColumnName r)), e'))"
    by (intro exI[of _ ?e'] exI[of _ ?st']) simp
qed

definition ex_norefs_seeder :: seeder where
  "ex_norefs_seeder = \<lparr>refsConfig = [], schema = [''books'', ''notes''],
                       maxParameters = SQLITE_MAX_PARAMETERS, dbInsert = (\<lambda>history t rows. True)\<rparr>"

theorem reference_without_refs_config_witness:
  "(\<exists>e' st'. acceptChunk ex_norefs_seeder (''notes'', [(''bookId'', Reference ex_noteRef)])
        (initialEngine ex_norefs_seeder) = (None, e') \<and>
      map_of (tableStates e') ''notes'' = Some st' \<and>
      batch st' = [[(''bookId'', Reference ex_noteRef)]] \<and> queue st' = [] \<and>
      flush ex_norefs_seeder ''notes'' e' =
        (Some (CannotResolveRefWithoutDatabase ''books'' 5 ''id''), e')) \<and>
   fst (execute ex_norefs_seeder ex_notes_stream) \<noteq> None"
proof -
  have cfg: "refsConfig ex_norefs_seeder = []"
    and ref: "extractRefs [(''bookId'', Reference ex_noteRef)] \<noteq> []"
    and db: "sqliteDb (initialEngine ex_norefs_seeder) = None"
    and tn: "''notes'' \<in> set (schema ex_norefs_seeder)"
    and c: "(''notes'', [(''bookId'', Reference ex_noteRef)]) \<in> set ex_notes_stream"
    by (simp_all add: ex_norefs_seeder_def initialEngine_def hasRefs_def ex_notes_stream_def)
  have st0: "tableStateAt ex_norefs_seeder ''notes'' [(''bookId'', Reference ex_noteRef)]
      (initialEngine ex_norefs_seeder) =
      newTableState ex_norefs_seeder [(''bookId'', Reference ex_noteRef)]"
    by (simp add: tableStateAt_def initialEngine_def)
  from reference_without_refs_config[OF cfg ref, of "initialEngine ex_norefs_seeder" "''notes''"
      ex_notes_stream] db tn c
  show ?thesis unfolding st0
    by (auto simp: newTableState_def ex_noteRef_def)
qed

section \<open>What a reference resolves to\<close>

lemma isGeneratedAsPlaceholder_Value: "isGeneratedAsPlaceholder (Value v) \<longleftrightarrow> v = JPlaceholder"
  by (cases v) simp_all

text \<open>
  C4, as the claim states it, fails when the referenced column is a generated one. The
  two books are inserted without an \<^verbatim>\<open>id\<close> (the target produces it, and the engine
  never reads it back); the store records the placeholder object, and that object is
  what the review is inserted with.
\<close>

theorem placeholder_reference_counterexample:
  "execute ex_seeder (ex_stream JPlaceholder JPlaceholder id) =
     (None,
      [\<lparr>ic_table = ''books'', ic_rows = [[], []], ic_rowIndices = [0, 1],
        ic_chunks = [[(''id'', Value JPlaceholder)], [(''id'', Value JPlaceholder)]]\<rparr>,
       \<lparr>ic_table = ''reviews'', ic_rows = [[(''bookId'', JPlaceholder)]], ic_rowIndices = [0],
        ic_chunks = [[(''bookId'', Reference (ex_bookRef id))]]\<rparr>])"
  by (simp add: run_defs ex_seeder_def ex_stream_def ex_bookRef_def)

text \<open>
  C4, amended. When the ids of the two books are plain values, the books are inserted
  in one call with these ids, before the review, and the review is inserted with the
  transform function applied to the id of book 0: for the identity, the very value
  book 0 was inserted with.
\<close>

theorem plain_reference_resolves_to_inserted_value:
  assumes "v0 \<noteq> JPlaceholder" and "v1 \<noteq> JPlaceholder"
  shows "execute ex_seeder (ex_stream v0 v1 f) =
     (None,
      [\<lparr>ic_table = ''books'', ic_rows = [[(''id'', v0)], [(''id'', v1)]], ic_rowIndices = [0, 1],
        ic_chunks = [[(''id'', Value v0)], [(''id'', Value v1)]]\<rparr>,
       \<lparr>ic_table = ''reviews'', ic_rows = [[(''bookId'', f v0)]], ic_rowIndices = [0],
        ic_chunks = [[(''bookId'', Reference (ex_bookRef f))]]\<rparr>])"
  using assms
  by (simp add: run_defs ex_seeder_def ex_stream_def ex_bookRef_def isGeneratedAsPlaceholder_Value)

theorem plain_reference_resolves_to_inserted_value_witness:
  "execute ex_seeder (ex_stream (JNum 10) (JStr ''b'') id) =
     (None,
      [\<lparr>ic_table = ''books'', ic_rows = [[(''id'', JNum 10)], [(''id'', JStr ''b'')]],
        ic_rowIndices = [0, 1],
        ic_chunks = [[(''id'', Value (JNum 10))], [(''id'', Value (JStr ''b''))]]\<rparr>,
       \<lparr>ic_table = ''reviews'', ic_rows = [[(''bookId'', JNum 10)]], ic_rowIndices = [0],
        ic_chunks = [[(''bookId'', Reference (ex_bookRef id))]]\<rparr>])"
  using plain_reference_resolves_to_inserted_value[of "JNum 10" "JStr ''b''" id] by simp

section \<open>The size of a batch\<close>

text \<open>
  A stream for the SQLite seeder: one book, and two reviews of 500 columns each that
  refer to the book. The 499 columns beside \<^verbatim>\<open>bookId\<close> are named \<^verbatim>\<open>c\<close>, \<^verbatim>\<open>cc\<close>, ... and
  hold null.
\<close>

definition ex_padding :: chunk where
  "ex_padding = map (\<lambda>n. (replicate n CHR ''c'', Value JNull)) [1..<500]"

definition ex_padding_row :: row where
  "ex_padding_row = map (\<lambda>n. (replicate n CHR ''c'', JNull)) [1..<500]"

definition ex_wide_chunk :: chunk where
  "ex_wide_chunk = (''bookId'', Reference (ex_bookRef id)) # ex_padding"

definition ex_wide_seeder :: seeder where
  "ex_wide_seeder = \<lparr>refsConfig = [(''books'', [''id''])], schema = [''books'', ''reviews''],
                     maxParameters = SQLITE_MAX_PARAMETERS, dbInsert = (\<lambda>history t rows. True)\<rparr>"

definition ex_wide_stream :: "(string \<times> chunk) list" where
  "ex_wide_stream =
     [(''books'', [(''id'', Value (JNum 1))]), (''reviews'', ex_wide_chunk),
      (''reviews'', ex_wide_chunk)]"

lemma extractRefs_values: "extractRefs (map (\<lambda>n. (k n, Value (v n))) ns) = []"
  by (induction ns) simp_all

lemma resolveChunk_values:
  "\<forall>n \<in> set ns. v n \<noteq> JPlaceholder \<Longrightarrow>
   resolveChunk (map (\<lambda>n. (k n, Value (v n))) ns) db = Inr (map (\<lambda>n. (k n, v n)) ns)"
  by (induction ns) (simp_all add: isGeneratedAsPlaceholder_Value)

lemma ex_padding_facts:
  "length ex_padding = 499" "extractRefs ex_padding = []"
  "resolveChunk ex_padding db = Inr ex_padding_row"
  unfolding ex_padding_def ex_padding_row_def
  by (simp, rule extractRefs_values, rule resolveChunk_values, simp)

text \<open>
  C3 fails on the code. The reviews table has 500 columns, so its batch size is
  \<open>floor(999 / 500) = 1\<close>. Both reviews wait in the queue for the book; the final drain
  moves both to the batch, and the flush that follows passes both to the external
  insert in one call: 2 rows, 1000 parameters.
\<close>

theorem drained_batch_exceeds_batchSize:
  "getBatchSizeForTable ex_wide_seeder (length ex_wide_chunk) = 1 \<and>
   execute ex_wide_seeder ex_wide_stream =
     (None,
      [\<lparr>ic_table = ''books'', ic_rows = [[(''id'', JNum 1)]], ic_rowIndices = [0],
        ic_chunks = [[(''id'', Value (JNum 1))]]\<rparr>,
       \<lparr>ic_table = ''reviews'',
        ic_rows = [(''bookId'', JNum 1) # ex_padding_row, (''bookId'', JNum 1) # ex_padding_row],
        ic_rowIndices = [0, 1],
        ic_chunks = [ex_wide_chunk, ex_wide_chunk]\<rparr>])"
  by (simp add: run_defs ex_wide_seeder_def ex_wide_stream_def ex_wide_chunk_def ex_bookRef_def
      ex_padding_facts one_enat_def)

end
